theory Spec2Isabelle
  imports Complex_Main
begin

section \<open>Double values\<close>

text \<open>
  A C \<^verbatim>\<open>double\<close> is an IEEE 754 binary64 value: a finite real, one of the two
  infinities, or NaN. Every arithmetic operation computes the exact real result and
  rounds it once to the nearest double, ties to even (no extended precision and no
  fused multiply-add); a result beyond the largest double becomes an infinity, small
  results are rounded on the grid of the subnormal numbers. On the special values the
  arithmetic follows IEEE 754 (a NaN operand gives NaN, \<open>inf - inf\<close>, \<open>0 * inf\<close>,
  \<open>0 / 0\<close> and \<open>inf / inf\<close> give NaN, a non-zero finite value divided by zero gives an
  infinity, every comparison with NaN is false). The sign of zero is not modelled (a
  zero divisor counts as \<open>+0\<close>, which is what the subtractions of the program produce).
\<close>

datatype double = Fin real | PInf | NInf | NaN

fun dneg :: "double \<Rightarrow> double" where
  "dneg (Fin a) = Fin (- a)"
| "dneg PInf = NInf"
| "dneg NInf = PInf"
| "dneg NaN = NaN"

text \<open>
  Rounding. \<open>ilog2 x\<close> is the binary exponent of a positive \<open>x\<close>
  (\<open>2 ^ ilog2 x \<le> x < 2 ^ (ilog2 x + 1)\<close>); the doubles near \<open>x\<close> are the multiples of
  \<open>quantum x\<close>, which leaves 53 significant bits and is \<open>2 ^ -1074\<close> in the subnormal
  range; \<open>round_nearest_even\<close> takes the nearest multiple, the one with an even
  significand at a tie; \<open>dround\<close> adds the overflow to an infinity.
\<close>

function ilog2 :: "real \<Rightarrow> int" where
  "ilog2 x = (if x \<le> 0 then 0 else if 2 \<le> x then ilog2 (x / 2) + 1
              else if x < 1 then ilog2 (x * 2) - 1 else 0)"
  by pat_completeness auto
termination
proof (relation "measure (\<lambda>x. nat \<bar>\<lfloor>log 2 x\<rfloor>\<bar>)")
  show "wf (measure (\<lambda>x. nat \<bar>\<lfloor>log 2 x\<rfloor>\<bar>))" by simp
next
  fix x :: real assume a: "\<not> x \<le> 0" "2 \<le> x"
  then have "log 2 (x / 2) = log 2 x - 1" by (simp add: log_divide)
  moreover from a have "1 \<le> log 2 x" by (simp add: le_log_iff)
  ultimately have "\<lfloor>log 2 (x / 2)\<rfloor> = \<lfloor>log 2 x\<rfloor> - 1" "1 \<le> \<lfloor>log 2 x\<rfloor>" by (simp_all add: le_floor_iff)
  then have "nat \<bar>\<lfloor>log 2 (x / 2)\<rfloor>\<bar> < nat \<bar>\<lfloor>log 2 x\<rfloor>\<bar>" by linarith
  then show "(x / 2, x) \<in> measure (\<lambda>x. nat \<bar>\<lfloor>log 2 x\<rfloor>\<bar>)" by simp
next
  fix x :: real assume a: "\<not> x \<le> 0" "\<not> 2 \<le> x" "x < 1"
  then have "log 2 (x * 2) = log 2 x + 1" by (simp add: log_mult)
  moreover from a have "log 2 x < 0" by simp
  ultimately have "\<lfloor>log 2 (x * 2)\<rfloor> = \<lfloor>log 2 x\<rfloor> + 1" "\<lfloor>log 2 x\<rfloor> < 0" by (simp_all add: floor_less_iff)
  then have "nat \<bar>\<lfloor>log 2 (x * 2)\<rfloor>\<bar> < nat \<bar>\<lfloor>log 2 x\<rfloor>\<bar>" by linarith
  then show "(x * 2, x) \<in> measure (\<lambda>x. nat \<bar>\<lfloor>log 2 x\<rfloor>\<bar>)" by simp
qed

declare ilog2.simps [simp del]

definition round_half_even :: "real \<Rightarrow> int" where
  "round_half_even x =
     (let f = \<lfloor>x\<rfloor>; d = x - of_int f
      in if d < 1/2 then f else if 1/2 < d then f + 1 else if even f then f else f + 1)"

definition quantum :: "real \<Rightarrow> real" where
  "quantum x = 2 powi (max (ilog2 x) (- 1022) - 52)"

definition round_pos :: "real \<Rightarrow> real" where
  "round_pos x = of_int (round_half_even (x / quantum x)) * quantum x"

definition round_nearest_even :: "real \<Rightarrow> real" where
  "round_nearest_even x = (if x < 0 then - round_pos (- x) else round_pos x)"

definition dround :: "real \<Rightarrow> double" where
  "dround x =
     (let y = round_nearest_even x
      in if 2 ^ 1024 \<le> \<bar>y\<bar> then (if 0 < x then PInf else NInf) else Fin y)"

fun dadd :: "double \<Rightarrow> double \<Rightarrow> double" where
  "dadd NaN b = NaN"
| "dadd a NaN = NaN"
| "dadd (Fin a) (Fin b) = dround (a + b)"
| "dadd PInf NInf = NaN"
| "dadd NInf PInf = NaN"
| "dadd PInf b = PInf"
| "dadd a PInf = PInf"
| "dadd NInf b = NInf"
| "dadd a NInf = NInf"

definition dsub :: "double \<Rightarrow> double \<Rightarrow> double" where
  "dsub a b = dadd a (dneg b)"

fun dsigned_inf :: "bool \<Rightarrow> double" where
  "dsigned_inf True = PInf"
| "dsigned_inf False = NInf"

fun dmul :: "double \<Rightarrow> double \<Rightarrow> double" where
  "dmul NaN b = NaN"
| "dmul a NaN = NaN"
| "dmul (Fin a) (Fin b) = dround (a * b)"
| "dmul (Fin a) PInf = (if a = 0 then NaN else dsigned_inf (0 < a))"
| "dmul (Fin a) NInf = (if a = 0 then NaN else dsigned_inf (a < 0))"
| "dmul PInf (Fin b) = (if b = 0 then NaN else dsigned_inf (0 < b))"
| "dmul NInf (Fin b) = (if b = 0 then NaN else dsigned_inf (b < 0))"
| "dmul PInf PInf = PInf"
| "dmul PInf NInf = NInf"
| "dmul NInf PInf = NInf"
| "dmul NInf NInf = PInf"

fun ddiv :: "double \<Rightarrow> double \<Rightarrow> double" where
  "ddiv NaN b = NaN"
| "ddiv a NaN = NaN"
| "ddiv (Fin a) (Fin b) =
     (if b \<noteq> 0 then dround (a / b) else if a = 0 then NaN else dsigned_inf (0 < a))"
| "ddiv (Fin a) PInf = Fin 0"
| "ddiv (Fin a) NInf = Fin 0"
| "ddiv PInf (Fin b) = dsigned_inf (0 \<le> b)"
| "ddiv NInf (Fin b) = dsigned_inf (b < 0)"
| "ddiv PInf b = NaN"
| "ddiv NInf b = NaN"

fun dlt :: "double \<Rightarrow> double \<Rightarrow> bool" where
  "dlt NaN b = False"
| "dlt a NaN = False"
| "dlt (Fin a) (Fin b) = (a < b)"
| "dlt a NInf = False"
| "dlt PInf b = False"
| "dlt NInf b = True"
| "dlt a PInf = True"

fun dle :: "double \<Rightarrow> double \<Rightarrow> bool" where
  "dle NaN b = False"
| "dle a NaN = False"
| "dle (Fin a) (Fin b) = (a \<le> b)"
| "dle NInf b = True"
| "dle a PInf = True"
| "dle a NInf = False"
| "dle PInf b = False"

definition dgt :: "double \<Rightarrow> double \<Rightarrow> bool" where
  "dgt a b = dlt b a"

fun fabs :: "double \<Rightarrow> double" where
  "fabs (Fin a) = Fin \<bar>a\<bar>"
| "fabs PInf = PInf"
| "fabs NInf = PInf"
| "fabs NaN = NaN"

fun ceil :: "double \<Rightarrow> double" where
  "ceil (Fin a) = Fin (of_int \<lceil>a\<rceil>)"
| "ceil PInf = PInf"
| "ceil NInf = NInf"
| "ceil NaN = NaN"

definition double_of_int :: "int \<Rightarrow> double" where
  "double_of_int n = dround (of_int n)"

section \<open>Errors and array reads\<close>

text \<open>
  A pointer to doubles is the list of the elements from the pointer up to the end of
  the array it points into; \<open>p + 1\<close> is \<open>drop 1 p\<close>. A read outside the array is
  undefined behaviour in C; the model makes it the error \<open>OutOfBounds\<close>.
  \<open>MexErr\<close> is a call of \<^verbatim>\<open>mexErrMsgIdAndTxt\<close>, which ends the MEX function, with the
  message identifier. \<open>UndefinedConversion\<close> is the conversion to \<^verbatim>\<open>unsigned int\<close> of a
  double whose integral part the type cannot hold.
\<close>

datatype error = OutOfBounds | UndefinedConversion | MexErr string

definition rd :: "double list \<Rightarrow> int \<Rightarrow> error + double" where
  "rd p i = (if 0 \<le> i \<and> i < int (length p) then Inr (p ! nat i) else Inl OutOfBounds)"

section \<open>Cutts' code block\<close>

subsection \<open>\<^verbatim>\<open>run_P\<close>\<close>

text \<open>
  The inner \<^verbatim>\<open>while\<close> loop of \<^verbatim>\<open>run_P\<close> for the spike \<open>i\<close> of train 1: it returns
  the cursor \<open>j\<close> and the count \<open>Nab\<close> at the \<^verbatim>\<open>break\<close> or when \<open>j\<close> reaches \<open>N2\<close>.
  The C \<^verbatim>\<open>int\<close>s are unbounded integers here: \<open>i\<close>, \<open>j\<close> and \<open>Nab\<close> stay between 0
  and the two element counts.
\<close>

function run_P_while ::
  "int \<Rightarrow> double \<Rightarrow> double list \<Rightarrow> double list \<Rightarrow> int \<Rightarrow> int \<Rightarrow> int \<Rightarrow> error + (int \<times> int)"
where
  "run_P_while N2 dt spike_times_1 spike_times_2 i j Nab =
     (if j < N2 then
        (case rd spike_times_1 i of Inl e \<Rightarrow> Inl e | Inr a \<Rightarrow>
         (case rd spike_times_2 j of Inl e \<Rightarrow> Inl e | Inr b \<Rightarrow>
            if dle (fabs (dsub a b)) dt then Inr (j, Nab + 1)
            else if dgt b a then Inr (j, Nab)
            else run_P_while N2 dt spike_times_1 spike_times_2 i (j + 1) Nab))
      else Inr (j, Nab))"
  by pat_completeness auto
termination
  by (relation "measure (\<lambda>(N2, dt, s1, s2, i, j, Nab). nat (N2 - j))") auto

declare run_P_while.simps [simp del]

function run_P_for ::
  "int \<Rightarrow> int \<Rightarrow> double \<Rightarrow> double list \<Rightarrow> double list \<Rightarrow> int \<Rightarrow> int \<Rightarrow> int \<Rightarrow> error + int"
where
  "run_P_for N1 N2 dt spike_times_1 spike_times_2 i j Nab =
     (if i \<le> N1 - 1 then
        (case run_P_while N2 dt spike_times_1 spike_times_2 i j Nab of
           Inl e \<Rightarrow> Inl e
         | Inr (j', Nab') \<Rightarrow> run_P_for N1 N2 dt spike_times_1 spike_times_2 (i + 1) j' Nab')
      else Inr Nab)"
  by pat_completeness auto
termination
  by (relation "measure (\<lambda>(N1, N2, dt, s1, s2, i, j, Nab). nat (N1 - i))") auto

declare run_P_for.simps [simp del]

text \<open>
  The test \<^verbatim>\<open>fabs( spike_times_1[ i ] - spike_times_2[ j ] ) <= dt\<close> of the loop, as a
  predicate on the two spikes.
\<close>

definition near :: "double \<Rightarrow> double \<Rightarrow> double \<Rightarrow> bool" where
  "near dt a b = dle (fabs (dsub a b)) dt"

definition run_P :: "int \<Rightarrow> int \<Rightarrow> double \<Rightarrow> double list \<Rightarrow> double list \<Rightarrow> error + double" where
  "run_P N1 N2 dt spike_times_1 spike_times_2 =
     (case run_P_for N1 N2 dt spike_times_1 spike_times_2 0 0 0 of
        Inl e \<Rightarrow> Inl e
      | Inr Nab \<Rightarrow> Inr (double_of_int Nab))"

subsection \<open>\<^verbatim>\<open>run_T\<close>\<close>

text \<open>The two boundary clips of \<^verbatim>\<open>run_T\<close>, as the assignments of the source.\<close>

definition clip_start :: "double \<Rightarrow> double \<Rightarrow> double \<Rightarrow> double \<Rightarrow> double" where
  "clip_start time_A start s dt = dsub (dadd (dsub time_A start) s) dt"

definition clip_end :: "double \<Rightarrow> double \<Rightarrow> double \<Rightarrow> double \<Rightarrow> double" where
  "clip_end time_A endv s dt = dadd (dsub (dsub time_A s) dt) endv"

text \<open>The \<^verbatim>\<open>while\<close> loop over adjacent pairs of spikes.\<close>

function run_T_while :: "int \<Rightarrow> double \<Rightarrow> double list \<Rightarrow> int \<Rightarrow> double \<Rightarrow> error + double" where
  "run_T_while N1 dt spike_times_1 i time_A =
     (if i < N1 - 1 then
        (case rd spike_times_1 (i + 1) of Inl e \<Rightarrow> Inl e | Inr b \<Rightarrow>
         (case rd spike_times_1 i of Inl e \<Rightarrow> Inl e | Inr a \<Rightarrow>
            let diff = dsub b a in
            run_T_while N1 dt spike_times_1 (i + 1)
              (if dlt diff (dmul (Fin 2) dt)
               then dadd (dsub time_A (dmul (Fin 2) dt)) diff else time_A)))
      else Inr time_A)"
  by pat_completeness auto
termination
  by (relation "measure (\<lambda>(N1, dt, s, i, t). nat (N1 - i))") auto

declare run_T_while.simps [simp del]

text \<open>The branch of \<^verbatim>\<open>run_T\<close> for one spike.\<close>

definition run_T_one :: "double \<Rightarrow> double \<Rightarrow> double \<Rightarrow> double list \<Rightarrow> double \<Rightarrow> error + double" where
  "run_T_one dt start endv spike_times_1 time_A =
     (case rd spike_times_1 0 of Inl e \<Rightarrow> Inl e | Inr s0 \<Rightarrow>
        if dlt (dsub s0 start) dt then Inr (clip_start time_A start s0 dt)
        else if dgt (dadd s0 dt) endv then Inr (clip_end time_A endv s0 dt)
        else Inr time_A)"

text \<open>The branch of \<^verbatim>\<open>run_T\<close> for more than one spike.\<close>

definition run_T_many ::
  "int \<Rightarrow> double \<Rightarrow> double \<Rightarrow> double \<Rightarrow> double list \<Rightarrow> double \<Rightarrow> error + double" where
  "run_T_many N1 dt start endv spike_times_1 time_A =
     (case run_T_while N1 dt spike_times_1 0 time_A of Inl e \<Rightarrow> Inl e | Inr t1 \<Rightarrow>
      (case rd spike_times_1 0 of Inl e \<Rightarrow> Inl e | Inr s0 \<Rightarrow>
         let t2 = (if dlt (dsub s0 start) dt then clip_start t1 start s0 dt else t1) in
         (case rd spike_times_1 (N1 - 1) of Inl e \<Rightarrow> Inl e | Inr sl \<Rightarrow>
            Inr (if dlt (dsub endv sl) dt then clip_end t2 endv sl dt else t2))))"

definition run_T :: "int \<Rightarrow> double \<Rightarrow> double \<Rightarrow> double \<Rightarrow> double list \<Rightarrow> error + double" where
  "run_T N1 dt start endv spike_times_1 =
     (let time_A = dmul (dmul (Fin 2) (double_of_int N1)) dt in
      if N1 = 1 then run_T_one dt start endv spike_times_1 time_A
      else run_T_many N1 dt start endv spike_times_1 time_A)"

subsection \<open>\<^verbatim>\<open>run_sttc\<close>\<close>

text \<open>
  The coefficient formula of the last statement of \<^verbatim>\<open>run_sttc\<close>. C parses
  \<^verbatim>\<open>0.5 * x / y\<close> as \<^verbatim>\<open>(0.5 * x) / y\<close>.
\<close>

definition sttc_formula :: "double \<Rightarrow> double \<Rightarrow> double \<Rightarrow> double \<Rightarrow> double" where
  "sttc_formula PA PB TA TB =
     dadd (ddiv (dmul (Fin (1/2)) (dsub PA TB)) (dsub (Fin 1) (dmul TB PA)))
          (ddiv (dmul (Fin (1/2)) (dsub PB TA)) (dsub (Fin 1) (dmul TA PB)))"

definition run_sttc ::
  "int \<Rightarrow> int \<Rightarrow> double \<Rightarrow> double list \<Rightarrow> double list \<Rightarrow> double list \<Rightarrow> error + double" where
  "run_sttc N1 N2 dt Time spike_times_1 spike_times_2 =
     (if N1 = 0 \<or> N2 = 0 then Inr NaN
      else
        (case rd Time 1 of Inl e \<Rightarrow> Inl e | Inr t1 \<Rightarrow>
         (case rd Time 0 of Inl e \<Rightarrow> Inl e | Inr t0 \<Rightarrow>
            let T = dsub t1 t0 in
            (case run_T N1 dt t0 t1 spike_times_1 of Inl e \<Rightarrow> Inl e | Inr TA' \<Rightarrow>
               let TA = ddiv TA' T in
             (case run_T N2 dt t0 t1 spike_times_2 of Inl e \<Rightarrow> Inl e | Inr TB' \<Rightarrow>
               let TB = ddiv TB' T in
              (case run_P N1 N2 dt spike_times_1 spike_times_2 of Inl e \<Rightarrow> Inl e | Inr PA' \<Rightarrow>
                 let PA = ddiv PA' (double_of_int N1) in
               (case run_P N2 N1 dt spike_times_2 spike_times_1 of Inl e \<Rightarrow> Inl e | Inr PB' \<Rightarrow>
                  let PB = ddiv PB' (double_of_int N2) in
                  Inr (sttc_formula PA PB TA TB))))))))"

section \<open>The MEX gateway function\<close>

subsection \<open>Arrays of the host\<close>

text \<open>
  An \<^verbatim>\<open>mxArray\<close> of the host is its class, its dimensions (\<open>M\<close> rows, \<open>N\<close> for the
  product of the other dimensions) and its real data in storage order. The functions
  of the MEX interface are modelled after their documentation: \<^verbatim>\<open>mxGetPr\<close> gives the
  pointer to the first element (no element can be read through it when the array is
  empty), \<^verbatim>\<open>mxGetScalar\<close> reads the first element.
\<close>

datatype mxClassID = mxDOUBLE_CLASS | mxSINGLE_CLASS | mxCHAR_CLASS | mxLOGICAL_CLASS
  | mxCELL_CLASS | mxSTRUCT_CLASS | mxINT32_CLASS

record mxArray =
  mxClass :: mxClassID
  mxM :: nat
  mxN :: nat
  mxData :: "double list"

definition mxIsDouble :: "mxArray \<Rightarrow> bool" where
  "mxIsDouble a = (mxClass a = mxDOUBLE_CLASS)"

definition mxGetNumberOfElements :: "mxArray \<Rightarrow> nat" where
  "mxGetNumberOfElements a = mxM a * mxN a"

definition mxIsScalar :: "mxArray \<Rightarrow> bool" where
  "mxIsScalar a = (mxM a = 1 \<and> mxN a = 1)"

definition mxGetPr :: "mxArray \<Rightarrow> double list" where
  "mxGetPr a = mxData a"

definition mxGetScalar :: "mxArray \<Rightarrow> error + double" where
  "mxGetScalar a = rd (mxData a) 0"

text \<open>The host keeps as many data elements as the dimensions say.\<close>

definition mx_wf :: "mxArray \<Rightarrow> bool" where
  "mx_wf a = (length (mxData a) = mxM a * mxN a)"

subsection \<open>Define block\<close>

definition NARGIN :: int where "NARGIN = 4"
definition NARGOUT :: int where "NARGOUT = 2"
definition WINARG :: nat where "WINARG = 0"
definition DTARG :: nat where "DTARG = 1"
definition AARG :: nat where "AARG = 2"
definition BARG :: nat where "BARG = 3"

subsection \<open>Conversion to \<^verbatim>\<open>unsigned int\<close>\<close>

text \<open>
  C truncates a finite double towards zero and the behaviour is undefined when the
  integral part is not a value of the type; \<^verbatim>\<open>unsigned int\<close> has 32 bits.
\<close>

definition uint_of_double :: "double \<Rightarrow> error + nat" where
  "uint_of_double d =
     (case d of
        Fin r \<Rightarrow> if - 1 < r \<and> r < 2 ^ 32 then Inr (nat \<lfloor>r\<rfloor>) else Inl UndefinedConversion
      | _ \<Rightarrow> Inl UndefinedConversion)"

subsection \<open>Clipping a train to the window\<close>

text \<open>
  \<^verbatim>\<open>while ( *A < win[ 0 ]  &&  Na ) { A++ ; Na-- ; }\<close>: the element under the
  pointer is read first, the count is tested second. \<open>w0\<close> is the value of
  \<^verbatim>\<open>win[ 0 ]\<close>, which the window check has read before.
\<close>

function clip_front :: "double \<Rightarrow> double list \<Rightarrow> int \<Rightarrow> error + (double list \<times> int)" where
  "clip_front w0 A Na =
     (case rd A 0 of Inl e \<Rightarrow> Inl e | Inr a \<Rightarrow>
        if dlt a w0 \<and> Na \<noteq> 0 then clip_front w0 (drop 1 A) (Na - 1) else Inr (A, Na))"
  by pat_completeness auto
termination
  by (relation "measure (\<lambda>(w0, A, Na). length A)") (auto simp: rd_def split: if_splits)

declare clip_front.simps [simp del]

text \<open>
  \<^verbatim>\<open>for ( i = 0 ; i < Na  &&  A[ i ] <= win[ 1 ] ; i++ ) ;\<close>: the count is tested
  first. The result is the final \<open>i\<close>, which \<^verbatim>\<open>Na -= ( Na - i )\<close> makes the new count.
\<close>

function clip_back :: "double \<Rightarrow> double list \<Rightarrow> int \<Rightarrow> int \<Rightarrow> error + int" where
  "clip_back w1 A Na i =
     (if i < Na then
        (case rd A i of Inl e \<Rightarrow> Inl e | Inr a \<Rightarrow>
           if dle a w1 then clip_back w1 A Na (i + 1) else Inr i)
      else Inr i)"
  by pat_completeness auto
termination
  by (relation "measure (\<lambda>(w1, A, Na, i). nat (Na - i))") auto

declare clip_back.simps [simp del]

text \<open>Both loops for one train: the pointer to the first spike kept and their number.\<close>

definition clip :: "double \<Rightarrow> double \<Rightarrow> double list \<Rightarrow> int \<Rightarrow> error + (double list \<times> int)" where
  "clip w0 w1 A Na =
     (case clip_front w0 A Na of Inl e \<Rightarrow> Inl e | Inr (A', Na') \<Rightarrow>
      (case clip_back w1 A' Na' 0 of Inl e \<Rightarrow> Inl e | Inr i \<Rightarrow> Inr (A', i)))"

subsection \<open>The sweep over delta-t\<close>

text \<open>
  The loop over all delta-t values. \<open>sttc\<close> and \<open>DT\<close> are the output buffers; \<open>DT\<close>
  is written only when a second output is requested.
\<close>

function sweep ::
  "nat \<Rightarrow> int \<Rightarrow> int \<Rightarrow> int \<Rightarrow> double list \<Rightarrow> double list \<Rightarrow> double list \<Rightarrow>
   nat \<Rightarrow> double list \<Rightarrow> double list \<Rightarrow> error + (double list \<times> double list)"
where
  "sweep dtn nlhs Na Nb win A B i sttc DT =
     (if i < dtn then
        (let dtv = ddiv (double_of_int (int i)) (Fin 1000);
             DT' = (if 1 < nlhs then DT[i := dtv] else DT)
         in case run_sttc Na Nb dtv win A B of
              Inl e \<Rightarrow> Inl e
            | Inr v \<Rightarrow> sweep dtn nlhs Na Nb win A B (i + 1) (sttc[i := v]) DT')
      else Inr (sttc, DT))"
  by pat_completeness auto
termination
  by (relation "measure (\<lambda>(dtn, nlhs, Na, Nb, win, A, B, i, sttc, DT). dtn - i)") auto

declare sweep.simps [simp del]

subsection \<open>\<^verbatim>\<open>mexFunction\<close>\<close>

text \<open>The column vector that is returned for a buffer of \<open>dtn\<close> doubles.\<close>

definition column :: "nat \<Rightarrow> double list \<Rightarrow> mxArray" where
  "column dtn buf = \<lparr>mxClass = mxDOUBLE_CLASS, mxM = dtn, mxN = 1, mxData = buf\<rparr>"

text \<open>
  Preparation, window check, clipping, sweep and return of the output, for the
  delta-t value \<open>dtv\<close> that has passed its check. The window is checked after the
  output buffers are allocated and before any coefficient is computed. In the source
  the two front loops come first and the two back loops after them; a loop of one
  train reads and writes nothing of the other. The literal \<^verbatim>\<open>0.001\<close> is the double
  nearest to \<open>1/1000\<close>. \<^verbatim>\<open>mxCalloc\<close> is taken to succeed, and the numbers of elements
  of \<open>A\<close> and \<open>B\<close> to be values of \<^verbatim>\<open>int\<close>.
\<close>

definition mex_compute :: "int \<Rightarrow> mxArray list \<Rightarrow> double \<Rightarrow> error + mxArray list" where
  "mex_compute nlhs prhs dtv =
     (case uint_of_double (dadd (ceil (ddiv dtv (dround (1/1000)))) (Fin 1)) of
        Inl e \<Rightarrow> Inl e
      | Inr dtn \<Rightarrow>
        let Na = int (mxGetNumberOfElements (prhs ! AARG));
            Nb = int (mxGetNumberOfElements (prhs ! BARG));
            win = mxGetPr (prhs ! WINARG);
            A = mxGetPr (prhs ! AARG);
            B = mxGetPr (prhs ! BARG);
            sttc = replicate dtn (Fin 0);
            DT = (if 1 < nlhs then replicate dtn (Fin 0) else [])
        in
        (case rd win 1 of Inl e \<Rightarrow> Inl e | Inr w1 \<Rightarrow>
         (case rd win 0 of Inl e \<Rightarrow> Inl e | Inr w0 \<Rightarrow>
            if dle w1 w0 then Inl (MexErr ''MAK:maksttc_cutts:winlim'')
            else
              (case clip_front w0 A Na of Inl e \<Rightarrow> Inl e | Inr (A', Na') \<Rightarrow>
               (case clip_front w0 B Nb of Inl e \<Rightarrow> Inl e | Inr (B', Nb') \<Rightarrow>
                (case clip_back w1 A' Na' 0 of Inl e \<Rightarrow> Inl e | Inr Na'' \<Rightarrow>
                 (case clip_back w1 B' Nb' 0 of Inl e \<Rightarrow> Inl e | Inr Nb'' \<Rightarrow>
                  (case sweep dtn nlhs Na'' Nb'' win A' B' 0 sttc DT of
                     Inl e \<Rightarrow> Inl e
                   | Inr (sttc', DT') \<Rightarrow>
                       if nlhs \<le> 1 then Inr [column dtn sttc']
                       else Inr [column dtn sttc', column dtn DT']))))))))"

definition mexFunction :: "int \<Rightarrow> mxArray list \<Rightarrow> error + mxArray list" where
  "mexFunction nlhs prhs =
     (if int (length prhs) \<noteq> NARGIN then Inl (MexErr ''MAK:maksttc_cutts:nargsin'')
      else if NARGOUT < nlhs then Inl (MexErr ''MAK:maksttc_cutts:nargsout'')
      else if \<not> mxIsDouble (prhs ! WINARG) \<or> mxGetNumberOfElements (prhs ! WINARG) \<noteq> 2
        then Inl (MexErr ''MAK:maksttc_cutts:win'')
      else if \<not> mxIsDouble (prhs ! DTARG) \<or> \<not> mxIsScalar (prhs ! DTARG)
        then Inl (MexErr ''MAK:maksttc_cutts:dt'')
      else if \<not> mxIsDouble (prhs ! AARG) \<or> \<not> mxIsDouble (prhs ! BARG)
        then Inl (MexErr ''MAK:maksttc_cutts:AB'')
      else
        (case mxGetScalar (prhs ! DTARG) of Inl e \<Rightarrow> Inl e | Inr dtv \<Rightarrow>
           if dlt dtv (Fin 0) then Inl (MexErr ''MAK:maksttc_cutts:neg_dt'')
           else mex_compute nlhs prhs dtv))"

section \<open>Rules for the evaluation on concrete inputs\<close>

lemmas mx_simps = mxIsDouble_def mxGetNumberOfElements_def mxIsScalar_def mxGetPr_def
  mxGetScalar_def column_def NARGIN_def NARGOUT_def WINARG_def DTARG_def AARG_def BARG_def

lemmas run_T_simps = run_T_def run_T_one_def run_T_many_def run_T_while.simps
  clip_start_def clip_end_def

lemmas run_P_simps = run_P_def run_P_for.simps run_P_while.simps

lemmas double_simps = dsub_def dgt_def double_of_int_def

lemmas round_simps = dround_def round_nearest_even_def round_pos_def quantum_def ilog2.simps
  round_half_even_def Let_def

section \<open>Rounding\<close>

text \<open>
  The rounding is monotone, keeps zero and the integers below \<open>2 ^ 53\<close>, and the binary
  exponent is the one of the text above.
\<close>

lemma ilog2_bounds: "0 < x \<Longrightarrow> 2 powi (ilog2 x) \<le> x \<and> x < 2 powi (ilog2 x + 1)"
proof (induction x rule: ilog2.induct)
  case (1 x)
  consider (big) "2 \<le> x" | (small) "x < 1" | (mid) "1 \<le> x" "x < 2" by linarith
  then show ?case
  proof cases
    case big
    with "1.prems" have e: "ilog2 x = ilog2 (x / 2) + 1" by (subst ilog2.simps) simp
    from "1.IH"(1)[OF _ big] "1.prems" have "2 powi (ilog2 (x / 2)) \<le> x / 2 \<and> x / 2 < 2 powi (ilog2 (x / 2) + 1)"
      by simp
    then show ?thesis unfolding e by (simp add: power_int_add field_simps)
  next
    case small
    with "1.prems" have e: "ilog2 x = ilog2 (x * 2) - 1" by (subst ilog2.simps) simp
    from "1.IH"(2)[OF _ _ small] "1.prems" small have "2 powi (ilog2 (x * 2)) \<le> x * 2 \<and> x * 2 < 2 powi (ilog2 (x * 2) + 1)"
      by simp
    then show ?thesis unfolding e by (simp add: power_int_add power_int_diff field_simps)
  next
    case mid
    then have "ilog2 x = 0" by (subst ilog2.simps) simp
    with mid show ?thesis by simp
  qed
qed

lemma round_half_even_of_int [simp]: "round_half_even (of_int n) = n"
  by (simp add: round_half_even_def)

lemma round_half_even_range:
  "\<lfloor>x\<rfloor> \<le> round_half_even x \<and> round_half_even x \<le> \<lfloor>x\<rfloor> + 1"
  by (simp add: round_half_even_def Let_def)

lemma round_half_even_mono: "x \<le> y \<Longrightarrow> round_half_even x \<le> round_half_even y"
proof -
  assume xy: "x \<le> y"
  then have f: "\<lfloor>x\<rfloor> \<le> \<lfloor>y\<rfloor>" by (rule floor_mono)
  show ?thesis
  proof (cases "\<lfloor>x\<rfloor> = \<lfloor>y\<rfloor>")
    case True
    with xy have "x - of_int \<lfloor>x\<rfloor> \<le> y - of_int \<lfloor>y\<rfloor>" by simp
    with True show ?thesis by (auto simp: round_half_even_def Let_def)
  next
    case False
    with f have "\<lfloor>x\<rfloor> + 1 \<le> \<lfloor>y\<rfloor>" by simp
    with round_half_even_range[of x] round_half_even_range[of y] show ?thesis by linarith
  qed
qed

lemma quantum_pos [simp]: "0 < quantum x"
  by (simp add: quantum_def)

lemma round_pos_nonneg: "0 \<le> x \<Longrightarrow> 0 \<le> round_pos x"
proof -
  assume "0 \<le> x"
  then have "0 \<le> x / quantum x" by (intro divide_nonneg_pos quantum_pos)
  then have "round_half_even 0 \<le> round_half_even (x / quantum x)" by (rule round_half_even_mono)
  moreover have "round_half_even 0 = 0" using round_half_even_of_int[of 0] by simp
  ultimately have "0 \<le> real_of_int (round_half_even (x / quantum x))" by simp
  then show ?thesis unfolding round_pos_def
    by (intro mult_nonneg_nonneg less_imp_le[OF quantum_pos])
qed

lemma pow2_less_cancel: "(2::real) powi a < 2 powi b \<Longrightarrow> a < b"
proof (rule ccontr)
  assume l: "(2::real) powi a < 2 powi b" and "\<not> a < b"
  then have "b \<le> a" by simp
  then have "(2::real) powi b \<le> 2 powi a" by (intro power_int_increasing) simp_all
  with l show False by simp
qed

lemma ilog2_mono: "0 < x \<Longrightarrow> x \<le> y \<Longrightarrow> ilog2 x \<le> ilog2 y"
proof -
  assume x: "0 < x" and xy: "x \<le> y"
  then have y: "0 < y" by simp
  from ilog2_bounds[OF x] ilog2_bounds[OF y] xy
  have "(2::real) powi ilog2 x < 2 powi (ilog2 y + 1)" by linarith
  then have "ilog2 x < ilog2 y + 1" by (rule pow2_less_cancel)
  then show ?thesis by simp
qed

lemma round_pos_mono: "0 \<le> x \<Longrightarrow> x \<le> y \<Longrightarrow> round_pos x \<le> round_pos y"
proof -
  assume x0: "0 \<le> x" and xy: "x \<le> y"
  show ?thesis
  proof (cases "x = 0")
    case True
    have "round_pos 0 = 0" using round_half_even_of_int[of 0] by (simp add: round_pos_def)
    with True round_pos_nonneg[of y] xy show ?thesis by simp
  next
    case False
    with x0 have x: "0 < x" by simp
    with xy have y: "0 < y" by simp
    let ?ex = "max (ilog2 x) (- 1022)" and ?ey = "max (ilog2 y) (- 1022)"
    have le: "?ex \<le> ?ey" using ilog2_mono[OF x xy] by simp
    show ?thesis
    proof (cases "?ex = ?ey")
      case True
      then have q: "quantum x = quantum y" by (simp add: quantum_def)
      from xy have "x / quantum y \<le> y / quantum y"
        by (intro divide_right_mono less_imp_le[OF quantum_pos])
      then have "round_half_even (x / quantum y) \<le> round_half_even (y / quantum y)"
        by (rule round_half_even_mono)
      then show ?thesis by (simp add: round_pos_def q)
    next
      case False
      with le have lt: "?ex + 1 \<le> ?ey" by simp
      then have ey: "?ey = ilog2 y" by (simp add: max_def split: if_splits)
      have qx: "quantum x * 2 ^ 53 = 2 powi (?ex + 1)"
        unfolding quantum_def by (simp add: power_int_add power_int_diff)
      have qy: "quantum y * 2 ^ 52 = 2 powi ?ey"
        unfolding quantum_def by (simp add: power_int_diff)
      have "x < 2 powi (ilog2 x + 1)" using ilog2_bounds[OF x] by simp
      also have "\<dots> \<le> 2 powi (?ex + 1)" by (rule power_int_increasing) simp_all
      finally have "x < quantum x * 2 ^ 53" by (simp only: qx)
      then have "x / quantum x \<le> of_int (2 ^ 53)" by (simp add: field_simps)
      then have "round_half_even (x / quantum x) \<le> round_half_even (of_int (2 ^ 53))"
        by (rule round_half_even_mono)
      then have "round_half_even (x / quantum x) \<le> 2 ^ 53" by (simp only: round_half_even_of_int)
      then have "real_of_int (round_half_even (x / quantum x)) \<le> 2 ^ 53"
        by (metis of_int_le_iff of_int_numeral of_int_power)
      then have "round_pos x \<le> quantum x * 2 ^ 53"
        by (simp add: round_pos_def mult.commute)
      then have ux: "round_pos x \<le> 2 powi (?ex + 1)" by (simp only: qx)
      have "quantum y * 2 ^ 52 \<le> y" using ilog2_bounds[OF y] by (simp only: qy ey)
      then have "of_int (2 ^ 52) \<le> y / quantum y" by (simp add: field_simps)
      then have "round_half_even (of_int (2 ^ 52)) \<le> round_half_even (y / quantum y)"
        by (rule round_half_even_mono)
      then have "2 ^ 52 \<le> round_half_even (y / quantum y)" by (simp only: round_half_even_of_int)
      then have "2 ^ 52 \<le> real_of_int (round_half_even (y / quantum y))"
        by (metis of_int_le_iff of_int_numeral of_int_power)
      then have "quantum y * 2 ^ 52 \<le> round_pos y"
        by (simp add: round_pos_def mult.commute)
      then have ly: "2 powi ?ey \<le> round_pos y" by (simp only: qy)
      have "(2::real) powi (?ex + 1) \<le> 2 powi ?ey" using lt by (intro power_int_increasing) simp_all
      with ux ly show ?thesis by linarith
    qed
  qed
qed

lemma round_nearest_even_mono: "x \<le> y \<Longrightarrow> round_nearest_even x \<le> round_nearest_even y"
proof -
  assume xy: "x \<le> y"
  consider (nn) "0 \<le> x" | (np) "x < 0" "0 \<le> y" | (neg) "y < 0" using xy by linarith
  then show ?thesis
  proof cases
    case nn
    with xy show ?thesis by (simp add: round_nearest_even_def round_pos_mono)
  next
    case np
    then have "0 \<le> round_pos (- x)" "0 \<le> round_pos y" by (simp_all add: round_pos_nonneg)
    with np show ?thesis by (simp add: round_nearest_even_def)
  next
    case neg
    with xy have "round_pos (- y) \<le> round_pos (- x)" by (intro round_pos_mono) simp_all
    with neg xy show ?thesis by (simp add: round_nearest_even_def)
  qed
qed

lemma round_nearest_even_0 [simp]: "round_nearest_even 0 = 0"
  using round_half_even_of_int[of 0] by (simp add: round_nearest_even_def round_pos_def)

lemma round_pos_of_int:
  assumes "0 \<le> n" "n < 2 ^ 53"
  shows "round_pos (of_int n) = of_int n"
proof (cases "n = 0")
  case True
  then show ?thesis using round_half_even_of_int[of 0] by (simp add: round_pos_def)
next
  case False
  with assms have n: "0 < real_of_int n" by simp
  let ?e = "ilog2 (of_int n)"
  from ilog2_bounds[OF n] have b: "2 powi ?e \<le> real_of_int n" "real_of_int n < 2 powi (?e + 1)" by simp_all
  from assms(2) have "real_of_int n < 2 powi 53" by (metis of_int_less_iff of_int_numeral of_int_power power_int_numeral)
  with b(1) have "(2::real) powi ?e < 2 powi 53" by linarith
  then have e53: "?e < 53" by (rule pow2_less_cancel)
  from False assms(1) have "1 \<le> real_of_int n" by simp
  with b(2) have "(2::real) powi 0 < 2 powi (?e + 1)" by simp
  then have "0 < ?e + 1" by (rule pow2_less_cancel)
  then have e0: "0 \<le> ?e" by simp
  have q: "quantum (of_int n) = 1 / 2 ^ nat (52 - ?e)"
  proof -
    from e0 have "max ?e (- 1022) - 52 = - int (nat (52 - ?e))" using e53 by simp
    then have "quantum (of_int n) = 2 powi (- int (nat (52 - ?e)))"
      unfolding quantum_def by (simp only:)
    also have "\<dots> = 1 / 2 ^ nat (52 - ?e)"
      by (simp only: power_int_minus_divide power_int_of_nat)
    finally show ?thesis .
  qed
  have "of_int n / quantum (of_int n) = real_of_int (n * 2 ^ nat (52 - ?e))"
    by (simp add: q)
  then have "round_half_even (of_int n / quantum (of_int n)) = n * 2 ^ nat (52 - ?e)"
    by (simp only: round_half_even_of_int)
  then show ?thesis by (simp add: round_pos_def q)
qed

lemma round_nearest_even_of_int:
  assumes "\<bar>n\<bar> < 2 ^ 53"
  shows "round_nearest_even (of_int n) = of_int n"
proof (cases "n < 0")
  case True
  with assms have "round_pos (of_int (- n)) = of_int (- n)" by (intro round_pos_of_int) simp_all
  with True show ?thesis by (simp add: round_nearest_even_def)
next
  case False
  with assms have "round_pos (of_int n) = of_int n" by (intro round_pos_of_int) simp_all
  with False show ?thesis by (simp add: round_nearest_even_def)
qed


section \<open>\<^verbatim>\<open>run_T\<close> and \<^verbatim>\<open>run_P\<close> read inside their arrays\<close>

text \<open>
  When the counts are not larger than the arrays, every read of \<^verbatim>\<open>run_T\<close> and
  \<^verbatim>\<open>run_P\<close> is in range and the functions return a value.
\<close>

lemma rd_ok: "0 \<le> i \<Longrightarrow> i < int (length p) \<Longrightarrow> rd p i = Inr (p ! nat i)"
  by (simp add: rd_def)

lemma run_T_while_ok:
  "0 \<le> i \<Longrightarrow> N1 \<le> int (length s) \<Longrightarrow> \<exists>t. run_T_while N1 dt s i time_A = Inr t"
proof (induction N1 dt s i time_A rule: run_T_while.induct)
  case (1 N1 dt s i time_A)
  show ?case
  proof (cases "i < N1 - 1")
    case True
    with "1.prems" have a: "rd s (i + 1) = Inr (s ! nat (i + 1))" and b: "rd s i = Inr (s ! nat i)"
      by (simp_all add: rd_ok)
    from "1.prems" have "0 \<le> i + 1" by simp
    from "1.IH"[OF True a b refl this "1.prems"(2)] a b True show ?thesis
      by (subst run_T_while.simps) (simp add: Let_def)
  next
    case False
    then show ?thesis by (subst run_T_while.simps) simp
  qed
qed

lemma run_T_ok:
  assumes "0 < N1" "N1 \<le> int (length s)"
  shows "\<exists>t. run_T N1 dt start endv s = Inr t"
proof -
  from assms have r0: "rd s 0 = Inr (s ! 0)" and rl: "rd s (N1 - 1) = Inr (s ! nat (N1 - 1))"
    by (auto simp: rd_def)
  obtain t where "run_T_while N1 dt s 0 (dmul (dmul (Fin 2) (double_of_int N1)) dt) = Inr t"
    using run_T_while_ok[of 0 N1 s] assms by blast
  then show ?thesis
    by (simp add: run_T_def run_T_one_def run_T_many_def r0 rl Let_def)
qed


lemma run_P_while_ok:
  "0 \<le> i \<Longrightarrow> i < int (length s1) \<Longrightarrow> 0 \<le> j \<Longrightarrow> N2 \<le> int (length s2) \<Longrightarrow>
   \<exists>j' Nab'. run_P_while N2 dt s1 s2 i j Nab = Inr (j', Nab') \<and> 0 \<le> j'"
proof (induction N2 dt s1 s2 i j Nab rule: run_P_while.induct)
  case (1 N2 dt s1 s2 i j Nab)
  show ?case
  proof (cases "j < N2")
    case True
    with "1.prems" have a: "rd s1 i = Inr (s1 ! nat i)" and b: "rd s2 j = Inr (s2 ! nat j)"
      by (auto simp: rd_def)
    show ?thesis
    proof (cases "dle (fabs (dsub (s1 ! nat i) (s2 ! nat j))) dt \<or> dgt (s2 ! nat j) (s1 ! nat i)")
      case True
      with \<open>j < N2\<close> a b "1.prems" show ?thesis
        by (subst run_P_while.simps) auto
    next
      case False
      then have f1: "\<not> dle (fabs (dsub (s1 ! nat i) (s2 ! nat j))) dt" and f2: "\<not> dgt (s2 ! nat j) (s1 ! nat i)"
        by simp_all
      from "1.prems" have "0 \<le> j + 1" by simp
      from "1.IH"[OF True a b f1 f2 "1.prems"(1,2) this "1.prems"(4)] a b True f1 f2 show ?thesis
        by (subst run_P_while.simps) simp
    qed
  next
    case False
    with "1.prems" show ?thesis by (subst run_P_while.simps) simp
  qed
qed

lemma run_P_for_ok:
  "0 \<le> i \<Longrightarrow> 0 \<le> j \<Longrightarrow> N1 \<le> int (length s1) \<Longrightarrow> N2 \<le> int (length s2) \<Longrightarrow>
   \<exists>n. run_P_for N1 N2 dt s1 s2 i j Nab = Inr n"
proof (induction N1 N2 dt s1 s2 i j Nab rule: run_P_for.induct)
  case (1 N1 N2 dt s1 s2 i j Nab)
  show ?case
  proof (cases "i \<le> N1 - 1")
    case True
    with "1.prems" obtain j' Nab' where w: "run_P_while N2 dt s1 s2 i j Nab = Inr (j', Nab')" and j': "0 \<le> j'"
      using run_P_while_ok[of i s1 j N2 s2 dt Nab] by auto
    from "1.prems" have "0 \<le> i + 1" by simp
    from "1.IH"[OF True w refl this j' "1.prems"(3,4)] w True show ?thesis
      by (subst run_P_for.simps) simp
  next
    case False
    then show ?thesis by (subst run_P_for.simps) simp
  qed
qed

lemma run_P_ok:
  assumes "N1 \<le> int (length s1)" "N2 \<le> int (length s2)"
  shows "\<exists>p. run_P N1 N2 dt s1 s2 = Inr p"
proof -
  obtain n where "run_P_for N1 N2 dt s1 s2 0 0 0 = Inr n"
    using run_P_for_ok[of 0 0 N1 s1 N2 s2 dt 0] assms by auto
  then show ?thesis unfolding run_P_def by simp
qed


section \<open>The coefficient\<close>

text \<open>
  C1: for two trains that are not empty (the counts \<open>N1\<close> and \<open>N2\<close> are positive and
  within the arrays), every window and every \<open>dt\<close>, \<^verbatim>\<open>run_T\<close> and \<^verbatim>\<open>run_P\<close> return
  values and the coefficient of \<^verbatim>\<open>run_sttc\<close> is
  \<open>0.5 * (PA - TB) / (1 - TB * PA) + 0.5 * (PB - TA) / (1 - TA * PB)\<close> with
  \<open>TA = run_T(train1) / T\<close>, \<open>TB = run_T(train2) / T\<close>, \<open>T = end - start\<close>,
  \<open>PA = run_P(train1, train2) / N1\<close> and \<open>PB = run_P(train2, train1) / N2\<close>. The
  divisions are those of doubles: no zero denominator is treated apart, and the
  result may be an infinity or NaN (the second theorem has such an input).
\<close>

theorem run_sttc_formula:
  assumes "0 < N1" "N1 \<le> int (length s1)" "0 < N2" "N2 \<le> int (length s2)"
  shows "\<exists>T1 T2 P1 P2.
    run_T N1 dt start endv s1 = Inr T1 \<and> run_T N2 dt start endv s2 = Inr T2 \<and>
    run_P N1 N2 dt s1 s2 = Inr P1 \<and> run_P N2 N1 dt s2 s1 = Inr P2 \<and>
    (let T = dsub endv start;
         TA = ddiv T1 T; TB = ddiv T2 T;
         PA = ddiv P1 (double_of_int N1); PB = ddiv P2 (double_of_int N2)
     in run_sttc N1 N2 dt [start, endv] s1 s2 =
          Inr (dadd (ddiv (dmul (Fin (1/2)) (dsub PA TB)) (dsub (Fin 1) (dmul TB PA)))
                    (ddiv (dmul (Fin (1/2)) (dsub PB TA)) (dsub (Fin 1) (dmul TA PB)))))"
proof -
  obtain T1 where T1: "run_T N1 dt start endv s1 = Inr T1" using run_T_ok assms by blast
  obtain T2 where T2: "run_T N2 dt start endv s2 = Inr T2" using run_T_ok assms by blast
  obtain P1 where P1: "run_P N1 N2 dt s1 s2 = Inr P1" using run_P_ok assms by blast
  obtain P2 where P2: "run_P N2 N1 dt s2 s1 = Inr P2" using run_P_ok assms by blast
  from assms have nz: "N1 \<noteq> 0" "N2 \<noteq> 0" by simp_all
  show ?thesis
    by (simp add: T1 T2 P1 P2 nz run_sttc_def rd_def sttc_formula_def Let_def)
qed

theorem run_sttc_formula_witness:
  "(0::int) < 1 \<and> (1::int) \<le> int (length [Fin (1/2)]) \<and>
   run_T 1 (Fin (1/2)) (Fin 0) (Fin 1) [Fin (1/2)] = Inr (Fin 1) \<and>
   run_P 1 1 (Fin (1/2)) [Fin (1/2)] [Fin (1/2)] = Inr (Fin 1) \<and>
   run_sttc 1 1 (Fin (1/2)) [Fin 0, Fin 1] [Fin (1/2)] [Fin (1/2)] = Inr NaN"
proof -
  have T: "run_T 1 (Fin (1/2)) (Fin 0) (Fin 1) [Fin (1/2)] = Inr (Fin 1)"
    by (simp add: run_T_simps rd_def double_simps round_simps)
  have P: "run_P 1 1 (Fin (1/2)) [Fin (1/2)] [Fin (1/2)] = Inr (Fin 1)"
    by (simp add: run_P_simps rd_def double_simps round_simps)
  from run_sttc_formula[of 1 "[Fin (1/2)]" 1 "[Fin (1/2)]" "Fin (1/2)" "Fin 0" "Fin 1"]
  show ?thesis
    by (simp add: T P double_simps round_simps)
qed


text \<open>
  The only error of the functions of Cutts' code block is a read outside an array.
\<close>

lemma dadd_commute: "dadd a b = dadd b a"
  by (cases a; cases b) (simp_all add: add.commute)

lemma rd_err: "rd p i = Inl e \<Longrightarrow> e = OutOfBounds"
  by (simp add: rd_def split: if_splits)

lemma run_T_while_err: "run_T_while N1 dt s i t = Inl e \<Longrightarrow> e = OutOfBounds"
proof (induction N1 dt s i t rule: run_T_while.induct)
  case (1 N1 dt s i t)
  from "1.prems" show ?case
    by (subst (asm) run_T_while.simps)
       (auto simp: Let_def split: if_splits sum.splits dest: rd_err "1.IH")
qed

lemma run_T_err: "run_T N1 dt start endv s = Inl e \<Longrightarrow> e = OutOfBounds"
  by (auto simp: run_T_def run_T_one_def run_T_many_def Let_def
      split: if_splits sum.splits dest: rd_err run_T_while_err)

lemma run_P_while_err: "run_P_while N2 dt s1 s2 i j Nab = Inl e \<Longrightarrow> e = OutOfBounds"
proof (induction N2 dt s1 s2 i j Nab rule: run_P_while.induct)
  case (1 N2 dt s1 s2 i j Nab)
  from "1.prems" show ?case
    by (subst (asm) run_P_while.simps)
       (auto split: if_splits sum.splits dest: rd_err "1.IH")
qed

lemma run_P_for_err: "run_P_for N1 N2 dt s1 s2 i j Nab = Inl e \<Longrightarrow> e = OutOfBounds"
proof (induction N1 N2 dt s1 s2 i j Nab rule: run_P_for.induct)
  case (1 N1 N2 dt s1 s2 i j Nab)
  show ?case
  proof (cases "i \<le> N1 - 1")
    case True
    show ?thesis
    proof (cases "run_P_while N2 dt s1 s2 i j Nab")
      case (Inl e')
      with True "1.prems" have "e' = e" by (subst (asm) run_P_for.simps) simp
      with Inl show ?thesis by (auto dest: run_P_while_err)
    next
      case (Inr r)
      obtain j' Nab' where r: "r = (j', Nab')" by (cases r)
      from True Inr r "1.prems" have "run_P_for N1 N2 dt s1 s2 (i + 1) j' Nab' = Inl e"
        by (subst (asm) run_P_for.simps) simp
      with "1.IH"[OF True Inr[unfolded r] refl] show ?thesis by simp
    qed
  next
    case False
    with "1.prems" show ?thesis by (subst (asm) run_P_for.simps) simp
  qed
qed

lemma run_P_err: "run_P N1 N2 dt s1 s2 = Inl e \<Longrightarrow> e = OutOfBounds"
  by (auto simp: run_P_def split: sum.splits dest: run_P_for_err)

lemma run_sttc_err: "run_sttc N1 N2 dt Time s1 s2 = Inl e \<Longrightarrow> e = OutOfBounds"
  by (auto simp: run_sttc_def Let_def split: if_splits sum.splits
      dest: rd_err run_T_err run_P_err)

text \<open>
  C7: the coefficient is symmetric in the two trains, for every window and every
  \<open>dt\<close>: exchanging the trains exchanges \<open>PA\<close> with \<open>PB\<close> and \<open>TA\<close> with \<open>TB\<close>, which
  exchanges the two summands of the formula, and the addition of doubles is
  commutative. (Neither sorted trains nor \<open>0 \<le> dt\<close> are needed.)
\<close>

theorem run_sttc_symmetric:
  "run_sttc N1 N2 dt Time s1 s2 = run_sttc N2 N1 dt Time s2 s1"
proof (cases "N1 = 0 \<or> N2 = 0")
  case True
  then show ?thesis by (auto simp: run_sttc_def)
next
  case False
  show ?thesis
  proof (cases "run_sttc N1 N2 dt Time s1 s2")
    case (Inl e)
    then have e: "e = OutOfBounds" by (rule run_sttc_err)
    from Inl False have "\<exists>e'. run_sttc N2 N1 dt Time s2 s1 = Inl e'"
      by (auto simp: run_sttc_def Let_def split: sum.splits)
    then obtain e' where e': "run_sttc N2 N1 dt Time s2 s1 = Inl e'" by blast
    then have "e' = OutOfBounds" by (rule run_sttc_err)
    with Inl e e' show ?thesis by simp
  next
    case (Inr v)
    with False show ?thesis
      by (auto simp: run_sttc_def Let_def sttc_formula_def dadd_commute split: sum.splits)
  qed
qed


theorem run_sttc_symmetric_witness:
  "run_sttc 2 1 (Fin 1) [Fin 0, Fin 10] [Fin 1, Fin 5] [Fin 2] = Inr (Fin (6004799503160661 / 2 ^ 53)) \<and>
   run_sttc 1 2 (Fin 1) [Fin 0, Fin 10] [Fin 2] [Fin 1, Fin 5] = Inr (Fin (6004799503160661 / 2 ^ 53))"
proof -
  have "run_sttc 2 1 (Fin 1) [Fin 0, Fin 10] [Fin 1, Fin 5] [Fin 2] = Inr (Fin (6004799503160661 / 2 ^ 53))"
    by (simp add: run_sttc_def sttc_formula_def run_T_simps run_P_simps rd_def double_simps
        round_simps)
  then show ?thesis
    using run_sttc_symmetric[of 2 1 "Fin 1" "[Fin 0, Fin 10]" "[Fin 1, Fin 5]" "[Fin 2]"]
    by simp
qed

section \<open>The count of \<^verbatim>\<open>run_P\<close>\<close>

text \<open>
  The test of the loop compares the rounded difference of the two spikes with \<open>dt\<close>.
  Rounding is monotone, so the test keeps failing when the spike of train 1 moves away
  from a spike of train 2 before it, or the spike of train 2 from a spike of train 1
  before it.
\<close>

lemma near_Fin:
  "near (Fin d) (Fin a) (Fin b) \<longleftrightarrow>
     \<bar>round_nearest_even (a - b)\<bar> < 2 ^ 1024 \<and> \<bar>round_nearest_even (a - b)\<bar> \<le> d"
  by (auto simp: near_def dsub_def dround_def Let_def)

lemma near_left:
  assumes "b \<le> a" "a \<le> a'" "near (Fin d) (Fin a') (Fin b)"
  shows "near (Fin d) (Fin a) (Fin b)"
proof -
  have "round_nearest_even 0 \<le> round_nearest_even (a - b)"
    using assms(1) by (intro round_nearest_even_mono) simp
  moreover have "round_nearest_even (a - b) \<le> round_nearest_even (a' - b)"
    using assms(2) by (intro round_nearest_even_mono) simp
  ultimately show ?thesis using assms(3) by (simp add: near_Fin)
qed

lemma near_right:
  assumes "a \<le> b" "b \<le> b'" "near (Fin d) (Fin a) (Fin b')"
  shows "near (Fin d) (Fin a) (Fin b)"
proof -
  have "round_nearest_even (a - b) \<le> round_nearest_even 0"
    using assms(1) by (intro round_nearest_even_mono) simp
  moreover have "round_nearest_even (a - b') \<le> round_nearest_even (a - b)"
    using assms(2) by (intro round_nearest_even_mono) simp
  ultimately show ?thesis using assms(3) by (simp add: near_Fin)
qed

text \<open>
  The loops of \<^verbatim>\<open>run_P\<close> on trains of finite timestamps. The invariant of the cursor
  \<open>j\<close>: every spike of train 2 before the cursor is not after the current spike of
  train 1 and fails the test with it, hence with every later spike of the sorted
  train 1.
\<close>

lemma rd_map_Fin: "k < length xs \<Longrightarrow> rd (map Fin xs) (int k) = Inr (Fin (xs ! k))"
  by (simp add: rd_def)

lemma run_P_while_spec:
  assumes srt: "\<And>k l. k \<le> l \<Longrightarrow> l < n2 \<Longrightarrow> ys ! k \<le> ys ! l"
    and n2: "n2 \<le> length ys" and i: "i < length xs"
  shows "j \<le> n2 \<Longrightarrow>
    (\<And>k. k < j \<Longrightarrow> ys ! k \<le> xs ! i \<and> \<not> near (Fin d) (Fin (xs ! i)) (Fin (ys ! k))) \<Longrightarrow>
    \<exists>j'. run_P_while (int n2) (Fin d) (map Fin xs) (map Fin ys) (int i) (int j) Nab
           = Inr (int j',
                  Nab + (if \<exists>k<n2. near (Fin d) (Fin (xs ! i)) (Fin (ys ! k)) then 1 else 0))
         \<and> j \<le> j' \<and> j' \<le> n2
         \<and> (\<forall>k<j'. ys ! k \<le> xs ! i \<and> \<not> near (Fin d) (Fin (xs ! i)) (Fin (ys ! k)))"
proof (induction "n2 - j" arbitrary: j)
  case 0
  then have jn: "j = n2" by simp
  have nm: "\<not> (\<exists>k<n2. near (Fin d) (Fin (xs ! i)) (Fin (ys ! k)))"
    using "0.prems"(2) jn by blast
  show ?case
    using jn nm "0.prems"(2) by (subst run_P_while.simps) simp
next
  case (Suc m)
  then have jl: "j < n2" by simp
  let ?a = "xs ! i" and ?b = "ys ! j"
  let ?hit = "\<exists>k<n2. near (Fin d) (Fin ?a) (Fin (ys ! k))"
  have ra: "rd (map Fin xs) (int i) = Inr (Fin ?a)" using i by (rule rd_map_Fin)
  have rb: "rd (map Fin ys) (int j) = Inr (Fin ?b)" using jl n2 by (simp add: rd_map_Fin)
  consider (hit) "near (Fin d) (Fin ?a) (Fin ?b)"
    | (past) "\<not> near (Fin d) (Fin ?a) (Fin ?b)" "?a < ?b"
    | (skip) "\<not> near (Fin d) (Fin ?a) (Fin ?b)" "\<not> ?a < ?b" by blast
  then show ?case
  proof cases
    case hit
    then have m: ?hit using jl by blast
    have "run_P_while (int n2) (Fin d) (map Fin xs) (map Fin ys) (int i) (int j) Nab
        = Inr (int j, Nab + 1)"
      using hit jl ra rb by (subst run_P_while.simps) (simp add: near_def)
    with m jl Suc.prems(2) show ?thesis by (intro exI[of _ j]) simp
  next
    case past
    have nm: "\<not> ?hit"
    proof
      assume ?hit
      then obtain k where k: "k < n2" "near (Fin d) (Fin ?a) (Fin (ys ! k))" by blast
      show False
      proof (cases "k < j")
        case True
        with Suc.prems(2)[of k] k show False by simp
      next
        case False
        then have "ys ! j \<le> ys ! k" using srt[of j k] k(1) by simp
        with past(2) have "near (Fin d) (Fin ?a) (Fin ?b)"
          by (intro near_right[OF _ _ k(2)]) simp_all
        with past(1) show False by simp
      qed
    qed
    have "run_P_while (int n2) (Fin d) (map Fin xs) (map Fin ys) (int i) (int j) Nab
        = Inr (int j, Nab)"
      using past jl ra rb by (subst run_P_while.simps) (simp add: near_def dgt_def)
    with nm jl Suc.prems(2) show ?thesis by (intro exI[of _ j]) simp
  next
    case skip
    have dead': "\<And>k. k < Suc j \<Longrightarrow>
        ys ! k \<le> xs ! i \<and> \<not> near (Fin d) (Fin (xs ! i)) (Fin (ys ! k))"
    proof -
      fix k assume "k < Suc j"
      then consider "k < j" | "k = j" by linarith
      then show "ys ! k \<le> xs ! i \<and> \<not> near (Fin d) (Fin (xs ! i)) (Fin (ys ! k))"
      proof cases
        case 1 then show ?thesis by (rule Suc.prems(2))
      next
        case 2 with skip show ?thesis by simp
      qed
    qed
    from Suc.hyps(2) have "m = n2 - Suc j" by simp
    from Suc.hyps(1)[OF this _ dead'] jl
    obtain j' where j': "run_P_while (int n2) (Fin d) (map Fin xs) (map Fin ys) (int i)
            (int (Suc j)) Nab = Inr (int j', Nab + (if ?hit then 1 else 0))"
       "Suc j \<le> j'" "j' \<le> n2"
       "\<forall>k<j'. ys ! k \<le> xs ! i \<and> \<not> near (Fin d) (Fin (xs ! i)) (Fin (ys ! k))" by auto
    have eq: "int j + 1 = int (Suc j)" by simp
    have "run_P_while (int n2) (Fin d) (map Fin xs) (map Fin ys) (int i) (int j) Nab
      = run_P_while (int n2) (Fin d) (map Fin xs) (map Fin ys) (int i) (int (Suc j)) Nab"
      using skip jl ra rb
      by (subst run_P_while.simps) (simp add: near_def dgt_def eq del: of_nat_Suc)
    with j' show ?thesis
      by (intro exI[of _ j']) simp
  qed
qed

lemma run_P_for_spec:
  assumes srt1: "\<And>k l. k \<le> l \<Longrightarrow> l < n1 \<Longrightarrow> xs ! k \<le> xs ! l"
    and srt2: "\<And>k l. k \<le> l \<Longrightarrow> l < n2 \<Longrightarrow> ys ! k \<le> ys ! l"
    and n1: "n1 \<le> length xs" and n2: "n2 \<le> length ys"
  shows "i \<le> n1 \<Longrightarrow> j \<le> n2 \<Longrightarrow>
    (\<And>k. i < n1 \<Longrightarrow> k < j \<Longrightarrow>
        ys ! k \<le> xs ! i \<and> \<not> near (Fin d) (Fin (xs ! i)) (Fin (ys ! k))) \<Longrightarrow>
    run_P_for (int n1) (int n2) (Fin d) (map Fin xs) (map Fin ys) (int i) (int j) Nab
      = Inr (Nab + int (length (filter
          (\<lambda>l. \<exists>k<n2. near (Fin d) (Fin (xs ! l)) (Fin (ys ! k))) [i..<n1])))"
proof (induction "n1 - i" arbitrary: i j Nab)
  case 0
  then show ?case by (subst run_P_for.simps) simp
next
  case (Suc m)
  then have il: "i < n1" by simp
  with n1 have ix: "i < length xs" by simp
  let ?hit = "\<lambda>l. \<exists>k<n2. near (Fin d) (Fin (xs ! l)) (Fin (ys ! k))"
  from run_P_while_spec[OF srt2 n2 ix Suc.prems(2), of d Nab] Suc.prems(3)[OF il]
  obtain j' where w: "run_P_while (int n2) (Fin d) (map Fin xs) (map Fin ys) (int i) (int j) Nab
           = Inr (int j', Nab + (if ?hit i then 1 else 0))"
    and j': "j' \<le> n2"
    and dead: "\<forall>k<j'. ys ! k \<le> xs ! i \<and> \<not> near (Fin d) (Fin (xs ! i)) (Fin (ys ! k))"
    by blast
  have dead': "\<And>k. Suc i < n1 \<Longrightarrow> k < j' \<Longrightarrow>
      ys ! k \<le> xs ! Suc i \<and> \<not> near (Fin d) (Fin (xs ! Suc i)) (Fin (ys ! k))"
  proof -
    fix k assume a: "Suc i < n1" "k < j'"
    then have le: "xs ! i \<le> xs ! Suc i" using srt1[of i "Suc i"] by simp
    from a dead have d: "ys ! k \<le> xs ! i" "\<not> near (Fin d) (Fin (xs ! i)) (Fin (ys ! k))"
      by simp_all
    from d(2) near_left[OF d(1) le] have "\<not> near (Fin d) (Fin (xs ! Suc i)) (Fin (ys ! k))"
      by blast
    with d(1) le show "ys ! k \<le> xs ! Suc i \<and> \<not> near (Fin d) (Fin (xs ! Suc i)) (Fin (ys ! k))"
      by simp
  qed
  from Suc.hyps(2) have "m = n1 - Suc i" by simp
  from Suc.hyps(1)[OF this _ j' dead', of "Nab + (if ?hit i then 1 else 0)"] il
  have IH: "run_P_for (int n1) (int n2) (Fin d) (map Fin xs) (map Fin ys) (int (Suc i)) (int j')
      (Nab + (if ?hit i then 1 else 0))
      = Inr (Nab + (if ?hit i then 1 else 0) + int (length (filter ?hit [Suc i..<n1])))" by simp
  have eq: "int i + 1 = int (Suc i)" by simp
  have "run_P_for (int n1) (int n2) (Fin d) (map Fin xs) (map Fin ys) (int i) (int j) Nab
    = run_P_for (int n1) (int n2) (Fin d) (map Fin xs) (map Fin ys) (int (Suc i)) (int j')
      (Nab + (if ?hit i then 1 else 0))"
    using il by (subst run_P_for.simps) (simp add: w eq del: of_nat_Suc)
  also note IH
  finally show ?case using il by (simp add: upt_conv_Cons)
qed

text \<open>
  C2, amended: for sorted trains of finite timestamps \<^verbatim>\<open>run_P\<close> returns the number of
  spikes of train 1 for which some spike of train 2 passes the test of the code,
  \<^verbatim>\<open>fabs( a - b ) <= dt\<close> with the difference rounded to a double; a spike of train 1
  counts once however many spikes of train 2 pass, and the cursor that only moves
  forward misses none. (The bound \<open>0 \<le> dt\<close> is not needed. The division of the count by
  the number of spikes of train 1 is the \<open>PA\<close> of C1.)

  The claim as stated, with the exact distance, fails: the spikes \<open>1\<close> and \<open>-2^-60\<close> are
  more than \<open>dt = 1\<close> apart, but their difference rounds to \<open>1\<close> and the spike is counted.
\<close>

theorem run_P_counts:
  assumes "sorted xs" and "sorted ys"
  shows "run_P (int (length xs)) (int (length ys)) (Fin d) (map Fin xs) (map Fin ys)
     = Inr (double_of_int (int (length (filter
         (\<lambda>a. \<exists>b\<in>set ys. dle (fabs (dsub (Fin a) (Fin b))) (Fin d)) xs))))"
proof -
  let ?P = "\<lambda>a. \<exists>b\<in>set ys. dle (fabs (dsub (Fin a) (Fin b))) (Fin d)"
  let ?hit = "\<lambda>l. \<exists>k<length ys. near (Fin d) (Fin (xs ! l)) (Fin (ys ! k))"
  have s1: "\<And>k l. k \<le> l \<Longrightarrow> l < length xs \<Longrightarrow> xs ! k \<le> xs ! l"
    using assms(1) by (simp add: sorted_iff_nth_mono)
  have s2: "\<And>k l. k \<le> l \<Longrightarrow> l < length ys \<Longrightarrow> ys ! k \<le> ys ! l"
    using assms(2) by (simp add: sorted_iff_nth_mono)
  have hit_eq: "\<And>a. (\<exists>k<length ys. near (Fin d) (Fin a) (Fin (ys ! k))) = ?P a"
    unfolding near_def by (metis in_set_conv_nth)
  have "run_P_for (int (length xs)) (int (length ys)) (Fin d) (map Fin xs) (map Fin ys)
        (int 0) (int 0) 0
      = Inr (0 + int (length (filter ?hit [0..<length xs])))"
    by (rule run_P_for_spec[OF s1 s2]) simp_all
  moreover have "filter ?hit [0..<length xs] = filter (\<lambda>l. ?P (xs ! l)) [0..<length xs]"
    using hit_eq by simp
  moreover have "length (filter (\<lambda>l. ?P (xs ! l)) [0..<length xs])
      = length (filter ?P (map (nth xs) [0..<length xs]))"
    by (simp only: filter_map length_map comp_def)
  ultimately show ?thesis
    by (simp add: run_P_def map_nth)
qed

theorem run_P_counts_witness:
  "sorted [1, 2, 3 :: real] \<and> sorted [0, 2, 5/2, 10 :: real] \<and>
   run_P 3 4 (Fin (5/8)) [Fin 1, Fin 2, Fin 3] [Fin 0, Fin 2, Fin (5/2), Fin 10] = Inr (Fin 2)"
proof -
  have f: "filter (\<lambda>a. \<exists>b\<in>set [0, 2, 5/2, 10].
        dle (fabs (dsub (Fin a) (Fin b))) (Fin (5/8))) [1, 2, 3 :: real] = [2, 3]"
    by (simp only: filter.simps list.set bex_simps)
       (simp add: double_simps round_simps)
  have "sorted [1, 2, 3 :: real]" "sorted [0, 2, 5/2, 10 :: real]" by simp_all
  from run_P_counts[OF this, of "5/8"] show ?thesis
    by (simp only: f) (simp add: double_simps round_simps)
qed

theorem run_P_rounded_distance_counterexample:
  "run_P 1 1 (Fin 1) [Fin 1] [Fin (- (1 / 2 ^ 60))] = Inr (Fin 1) \<and>
   \<not> \<bar>1 - (- (1 / 2 ^ 60))\<bar> \<le> (1::real)"
  by (simp add: run_P_simps rd_def double_simps round_simps)

text \<open>
  C3: on a train of one spike \<^verbatim>\<open>run_T\<close> chooses between the two clips
  (\<^verbatim>\<open>if ... else if\<close>), it does not apply both. For the window \<open>(0, 1)\<close>, the spike
  \<open>0.5\<close> and \<open>dt = 1\<close> the interval \<open>[-0.5, 1.5]\<close> passes both ends of the window:
  \<^verbatim>\<open>run_T\<close> subtracts the part before the start only and returns \<open>1.5\<close>, more than
  the length of the window, where the statements of the branch for several spikes, on
  the same data, apply both clips and give \<open>1\<close>.
\<close>

theorem run_T_one_spike_single_clip:
  "run_T 1 (Fin 1) (Fin 0) (Fin 1) [Fin (1/2)] = Inr (Fin (3/2)) \<and>
   run_T_many 1 (Fin 1) (Fin 0) (Fin 1) [Fin (1/2)]
     (dmul (dmul (Fin 2) (double_of_int 1)) (Fin 1)) = Inr (Fin 1)"
  by (simp add: run_T_simps rd_def double_simps round_simps)

section \<open>Clipping\<close>

text \<open>
  The two clipping loops on a whole array (the count is the length of the array): the
  first loop reads out of bounds exactly when every element is before the window, and
  otherwise drops the elements before the window; the second loop counts the elements
  up to the end of the window.
\<close>

lemma dlt_not_dle: "dlt a b \<Longrightarrow> \<not> dle b a"
  by (cases a; cases b) simp_all

lemma clip_front_length:
  "clip_front w0 A (int (length A)) =
     (if list_all (\<lambda>x. dlt x w0) A then Inl OutOfBounds
      else Inr (dropWhile (\<lambda>x. dlt x w0) A, int (length (dropWhile (\<lambda>x. dlt x w0) A))))"
proof (induction A)
  case Nil
  show ?case by (subst clip_front.simps) (simp add: rd_def)
next
  case (Cons a A)
  have eq: "int (Suc (length A)) - 1 = int (length A)" by simp
  show ?case
    by (subst clip_front.simps) (simp add: rd_def eq Cons.IH del: of_nat_Suc)
qed

lemma clip_front_err: "clip_front w0 A Na = Inl e \<Longrightarrow> e = OutOfBounds"
proof (induction w0 A Na rule: clip_front.induct)
  case (1 w0 A Na)
  show ?case
  proof (cases "rd A 0")
    case (Inl e')
    with "1.prems" have "e' = e" by (subst (asm) clip_front.simps) simp
    with Inl show ?thesis by (auto dest: rd_err)
  next
    case (Inr a)
    show ?thesis
    proof (cases "dlt a w0 \<and> Na \<noteq> 0")
      case True
      with Inr "1.prems" have "clip_front w0 (drop 1 A) (Na - 1) = Inl e"
        by (subst (asm) clip_front.simps) simp
      with "1.IH"[OF Inr True] show ?thesis by simp
    next
      case False
      with Inr "1.prems" show ?thesis by (subst (asm) clip_front.simps) auto
    qed
  qed
qed

lemma clip_back_spec:
  "0 \<le> i \<Longrightarrow> i \<le> Na \<Longrightarrow> Na \<le> int (length A) \<Longrightarrow>
   clip_back w1 A Na i =
     Inr (i + int (length (takeWhile (\<lambda>x. dle x w1) (drop (nat i) (take (nat Na) A)))))"
proof (induction w1 A Na i rule: clip_back.induct)
  case (1 w1 A Na i)
  show ?case
  proof (cases "i < Na")
    case True
    with "1.prems" have r: "rd A i = Inr (A ! nat i)" by (simp add: rd_def)
    from True "1.prems" have il: "nat i < length (take (nat Na) A)" by simp
    have d: "drop (nat i) (take (nat Na) A) = A ! nat i # drop (nat (i + 1)) (take (nat Na) A)"
      using Cons_nth_drop_Suc[OF il, symmetric] il "1.prems"(1) by (simp add: nat_add_distrib)
    show ?thesis
    proof (cases "dle (A ! nat i) w1")
      case dl: True
      from "1.prems" True have "0 \<le> i + 1" "i + 1 \<le> Na" by simp_all
      from "1.IH"[OF True r dl this "1.prems"(3)] True r dl show ?thesis
        by (subst clip_back.simps) (simp add: d)
    next
      case False
      with True r show ?thesis by (subst clip_back.simps) (simp add: d)
    qed
  next
    case False
    with "1.prems" have "i = Na" by simp
    then show ?thesis by (subst clip_back.simps) simp
  qed
qed

lemma clip_back_err: "clip_back w1 A Na i = Inl e \<Longrightarrow> e = OutOfBounds"
proof (induction w1 A Na i rule: clip_back.induct)
  case (1 w1 A Na i)
  show ?case
  proof (cases "i < Na")
    case True
    show ?thesis
    proof (cases "rd A i")
      case (Inl e')
      with True "1.prems" have "e' = e" by (subst (asm) clip_back.simps) simp
      with Inl show ?thesis by (auto dest: rd_err)
    next
      case (Inr a)
      show ?thesis
      proof (cases "dle a w1")
        case dl: True
        with True Inr "1.prems" have "clip_back w1 A Na (i + 1) = Inl e"
          by (subst (asm) clip_back.simps) simp
        with "1.IH"[OF True Inr dl] show ?thesis by simp
      next
        case False
        with True Inr "1.prems" show ?thesis by (subst (asm) clip_back.simps) simp
      qed
    qed
  next
    case False
    with "1.prems" show ?thesis by (subst (asm) clip_back.simps) simp
  qed
qed

text \<open>Clipping a whole array: the result in closed form.\<close>

lemma clip_length:
  "clip w0 w1 A (int (length A)) =
     (if list_all (\<lambda>x. dlt x w0) A then Inl OutOfBounds
      else Inr (dropWhile (\<lambda>x. dlt x w0) A,
                int (length (takeWhile (\<lambda>x. dle x w1) (dropWhile (\<lambda>x. dlt x w0) A)))))"
  by (simp add: clip_def clip_front_length clip_back_spec)


lemma sorted_dropWhile_filter:
  "sorted xs \<Longrightarrow> dropWhile (\<lambda>t. t < s) xs = filter (\<lambda>t. s \<le> t) (xs :: real list)"
proof (induction xs)
  case Nil
  show ?case by simp
next
  case (Cons x xs)
  show ?case
  proof (cases "x < s")
    case True
    with Cons show ?thesis by simp
  next
    case False
    with Cons.prems have "\<forall>t\<in>set (x # xs). s \<le> t" by auto
    then have "filter (\<lambda>t. s \<le> t) (x # xs) = x # xs" by (simp only: filter_True)
    with False show ?thesis by simp
  qed
qed

lemma sorted_takeWhile_filter:
  "sorted xs \<Longrightarrow> takeWhile (\<lambda>t. t \<le> e) xs = filter (\<lambda>t. t \<le> e) (xs :: real list)"
proof (induction xs)
  case Nil
  show ?case by simp
next
  case (Cons x xs)
  show ?case
  proof (cases "x \<le> e")
    case True
    with Cons show ?thesis by simp
  next
    case False
    with Cons.prems have "\<forall>t\<in>set (x # xs). \<not> t \<le> e" by auto
    then have "filter (\<lambda>t. t \<le> e) (x # xs) = []" by (simp only: filter_False)
    with False show ?thesis by simp
  qed
qed

text \<open>
  On a sorted train of finite timestamps that holds a spike not before the window the
  clipping keeps exactly the spikes \<open>t\<close> with \<open>start \<le> t \<le> end\<close>, in their order.
\<close>

lemma clip_sorted_filter:
  assumes "sorted xs" and "\<exists>x\<in>set xs. s \<le> x"
  shows "\<exists>A' n. clip (Fin s) (Fin e) (map Fin xs) (int (length xs)) = Inr (A', int n)
           \<and> take n A' = map Fin (filter (\<lambda>t. s \<le> t \<and> t \<le> e) xs)"
proof -
  let ?A' = "dropWhile (\<lambda>x. dlt x (Fin s)) (map Fin xs)"
  let ?n = "length (takeWhile (\<lambda>x. dle x (Fin e)) ?A')"
  have nall: "\<not> list_all (\<lambda>x. dlt x (Fin s)) (map Fin xs)"
  proof -
    from assms(2) obtain x where "x \<in> set xs" "\<not> x < s" by (auto simp: not_less)
    then show ?thesis by (auto simp: list_all_iff)
  qed
  have c: "clip (Fin s) (Fin e) (map Fin xs) (int (length (map Fin xs))) = Inr (?A', int ?n)"
    using nall by (simp only: clip_length if_False)
  have A': "?A' = map Fin (dropWhile (\<lambda>t. t < s) xs)"
    by (simp add: dropWhile_map comp_def)
  have "take ?n ?A' = takeWhile (\<lambda>x. dle x (Fin e)) ?A'"
    by (rule takeWhile_eq_take[symmetric])
  also have "\<dots> = map Fin (takeWhile (\<lambda>t. t \<le> e) (dropWhile (\<lambda>t. t < s) xs))"
    by (simp add: A' takeWhile_map comp_def)
  also have "\<dots> = map Fin (filter (\<lambda>t. t \<le> e) (filter (\<lambda>t. s \<le> t) xs))"
    using assms(1) by (simp add: sorted_dropWhile_filter sorted_takeWhile_filter sorted_wrt_filter)
  also have "\<dots> = map Fin (filter (\<lambda>t. s \<le> t \<and> t \<le> e) xs)"
    by (simp add: conj_commute)
  finally have "take ?n ?A' = map Fin (filter (\<lambda>t. s \<le> t \<and> t \<le> e) xs)" .
  with c show ?thesis by (intro exI[of _ ?A'] exI[of _ ?n]) simp
qed

text \<open>
  Clipping again a clipped train that kept a spike returns it unchanged (for every
  array of doubles, sorted or not).
\<close>

lemma clip_idempotent_nonempty:
  assumes c: "clip w0 w1 A (int (length A)) = Inr (A', int n)" and n: "0 < n"
  shows "clip w0 w1 (take n A') (int (length (take n A'))) = Inr (take n A', int n)"
proof -
  let ?lt = "\<lambda>x. dlt x w0" and ?le = "\<lambda>x. dle x w1"
  from c have A': "A' = dropWhile ?lt A" and n': "n = length (takeWhile ?le A')"
    by (auto simp: clip_length split: if_splits)
  let ?ys = "take n A'"
  have ys: "?ys = takeWhile ?le A'" unfolding n' by (rule takeWhile_eq_take[symmetric])
  from n n' have ne: "A' \<noteq> []" by auto
  then have h: "\<not> ?lt (hd A')" unfolding A' by (rule hd_dropWhile)
  from n ne have hy: "hd ?ys = hd A'" by (cases A') auto
  from n ne have yne: "?ys \<noteq> []" by auto
  have d: "dropWhile ?lt ?ys = ?ys"
    using h hy yne by (cases ?ys) auto
  have t: "takeWhile ?le ?ys = ?ys"
    unfolding ys by simp
  have na: "\<not> list_all ?lt ?ys"
    using h hy yne by (cases ?ys) auto
  have "length (takeWhile ?le A') \<le> length A'" by (rule length_takeWhile_le)
  then have l: "length ?ys = n" unfolding n' by simp
  have "clip w0 w1 ?ys (int (length ?ys))
      = Inr (dropWhile ?lt ?ys, int (length (takeWhile ?le (dropWhile ?lt ?ys))))"
    using na by (simp only: clip_length if_False)
  then show ?thesis by (simp only: d t l)
qed


text \<open>
  C10: the guard of the first clipping loop reads \<^verbatim>\<open>*A\<close> before it tests \<^verbatim>\<open>Na\<close>,
  so the read is out of bounds when no element is left: at once for an empty train,
  and after the last element for a train that lies before the window.
\<close>

theorem clip_front_reads_out_of_bounds:
  "clip_front (Fin 0) [] 0 = Inl OutOfBounds \<and>
   clip_front (Fin 2) [Fin 1] 1 = Inl OutOfBounds"
  by (simp add: clip_front.simps rd_def)

text \<open>
  C6: clipping does not return the empty train when no element is in range because
  the train is empty or lies before the window: for the empty train, and for the train
  \<open>[1]\<close> with the window \<open>(2, 3)\<close>, the first loop reads \<^verbatim>\<open>*A\<close> where no element is
  left. (On the other sorted trains the result is the one of the claim:
  \<open>clip_sorted_filter\<close>.)
\<close>

theorem clip_no_element_in_range:
  "clip (Fin 2) (Fin 3) [] 0 = Inl OutOfBounds \<and>
   clip (Fin 2) (Fin 3) [Fin 1] 1 = Inl OutOfBounds"
  by (simp add: clip_def clip_front.simps rd_def)

text \<open>
  C9: the train \<open>[5]\<close> clipped to the window \<open>(0, 1)\<close> is the empty train (no spike
  is kept); clipping this empty train again to the same window reads out of bounds
  instead of returning it unchanged. (A clipped train that kept a spike is returned
  unchanged: \<open>clip_idempotent_nonempty\<close>.)
\<close>

theorem clip_twice_empty_train:
  "clip (Fin 0) (Fin 1) [Fin 5] 1 = Inr ([Fin 5], 0) \<and>
   clip (Fin 0) (Fin 1) (take 0 [Fin 5]) 0 = Inl OutOfBounds"
  by (simp add: clip_def clip_front.simps clip_back.simps rd_def)

section \<open>The gateway function\<close>

text \<open>
  The coefficient is computed for every count of spikes that lies within the arrays,
  and the sweep fills the output buffers position by position.
\<close>

lemma run_sttc_ok:
  assumes "0 \<le> N1" "N1 \<le> int (length s1)" "0 \<le> N2" "N2 \<le> int (length s2)"
  shows "\<exists>v. run_sttc N1 N2 dt [t0, t1] s1 s2 = Inr v"
proof (cases "N1 = 0 \<or> N2 = 0")
  case True
  then show ?thesis by (auto simp: run_sttc_def)
next
  case False
  with assms have p: "0 < N1" "0 < N2" by simp_all
  obtain T1 where T1: "run_T N1 dt t0 t1 s1 = Inr T1" using run_T_ok p assms by blast
  obtain T2 where T2: "run_T N2 dt t0 t1 s2 = Inr T2" using run_T_ok p assms by blast
  obtain P1 where P1: "run_P N1 N2 dt s1 s2 = Inr P1" using run_P_ok assms by blast
  obtain P2 where P2: "run_P N2 N1 dt s2 s1 = Inr P2" using run_P_ok assms by blast
  from False show ?thesis
    by (simp add: T1 T2 P1 P2 run_sttc_def rd_def Let_def)
qed

lemma sweep_spec:
  assumes ok: "\<And>dtv. \<exists>v. run_sttc Na Nb dtv win A B = Inr v"
  shows "i \<le> dtn \<Longrightarrow> length sttc = dtn \<Longrightarrow> (1 < nlhs \<longrightarrow> length DT = dtn) \<Longrightarrow>
    \<exists>sttc' DT'. sweep dtn nlhs Na Nb win A B i sttc DT = Inr (sttc', DT')
      \<and> length sttc' = dtn \<and> length DT' = length DT
      \<and> (\<forall>k. i \<le> k \<and> k < dtn \<longrightarrow>
            run_sttc Na Nb (ddiv (double_of_int (int k)) (Fin 1000)) win A B = Inr (sttc' ! k))
      \<and> (\<forall>k<i. sttc' ! k = sttc ! k)
      \<and> (1 < nlhs \<longrightarrow> (\<forall>k. i \<le> k \<and> k < dtn \<longrightarrow> DT' ! k = ddiv (double_of_int (int k)) (Fin 1000))
                      \<and> (\<forall>k<i. DT' ! k = DT ! k))"
proof (induction "dtn - i" arbitrary: i sttc DT)
  case 0
  then have "i = dtn" by simp
  with "0.prems" show ?case by (subst sweep.simps) auto
next
  case (Suc m)
  then have il: "i < dtn" by simp
  let ?dtv = "ddiv (double_of_int (int i)) (Fin 1000)"
  let ?DT1 = "if 1 < nlhs then DT[i := ?dtv] else DT"
  obtain v where v: "run_sttc Na Nb ?dtv win A B = Inr v" using ok by blast
  have step: "sweep dtn nlhs Na Nb win A B i sttc DT
     = sweep dtn nlhs Na Nb win A B (i + 1) (sttc[i := v]) ?DT1"
    using il by (subst sweep.simps) (simp add: v Let_def)
  from Suc.hyps(2) have m: "m = dtn - (i + 1)" by simp
  from il have le: "i + 1 \<le> dtn" by simp
  have l1: "length (sttc[i := v]) = dtn" using Suc.prems(2) by simp
  have l2: "1 < nlhs \<longrightarrow> length ?DT1 = dtn" using Suc.prems(3) by simp
  from Suc.hyps(1)[OF m le l1 l2]
  obtain sttc' DT' where r: "sweep dtn nlhs Na Nb win A B (i + 1) (sttc[i := v]) ?DT1 = Inr (sttc', DT')"
    and ls: "length sttc' = dtn" and ld: "length DT' = length ?DT1"
    and hi: "\<forall>k. i + 1 \<le> k \<and> k < dtn \<longrightarrow>
            run_sttc Na Nb (ddiv (double_of_int (int k)) (Fin 1000)) win A B = Inr (sttc' ! k)"
    and lo: "\<forall>k<i + 1. sttc' ! k = sttc[i := v] ! k"
    and dts: "1 < nlhs \<longrightarrow> (\<forall>k. i + 1 \<le> k \<and> k < dtn \<longrightarrow> DT' ! k = ddiv (double_of_int (int k)) (Fin 1000))
                      \<and> (\<forall>k<i + 1. DT' ! k = ?DT1 ! k)"
    by blast
  have a: "\<forall>k. i \<le> k \<and> k < dtn \<longrightarrow> run_sttc Na Nb (ddiv (double_of_int (int k)) (Fin 1000)) win A B = Inr (sttc' ! k)"
  proof (intro allI impI)
    fix k assume k: "i \<le> k \<and> k < dtn"
    show "run_sttc Na Nb (ddiv (double_of_int (int k)) (Fin 1000)) win A B = Inr (sttc' ! k)"
    proof (cases "k = i")
      case True
      with lo il Suc.prems(2) have "sttc' ! k = v" by simp
      with v True show ?thesis by simp
    next
      case False
      with k hi show ?thesis by simp
    qed
  qed
  have b: "\<forall>k<i. sttc' ! k = sttc ! k" using lo by simp
  have c: "1 < nlhs \<longrightarrow> (\<forall>k. i \<le> k \<and> k < dtn \<longrightarrow> DT' ! k = ddiv (double_of_int (int k)) (Fin 1000))
                      \<and> (\<forall>k<i. DT' ! k = DT ! k)"
  proof (intro impI conjI allI)
    fix k assume n: "1 < nlhs" and k: "i \<le> k \<and> k < dtn"
    show "DT' ! k = ddiv (double_of_int (int k)) (Fin 1000)"
    proof (cases "k = i")
      case True
      from dts n have "DT' ! i = ?DT1 ! i" by simp
      with n il Suc.prems(3) True show ?thesis by simp
    next
      case False
      with k dts n show ?thesis by simp
    qed
  next
    fix k assume n: "1 < nlhs" and k: "k < i"
    with dts have "DT' ! k = ?DT1 ! k" by simp
    with n k show "DT' ! k = DT ! k" by simp
  qed
  have ld': "length DT' = length DT" using ld by simp
  show ?case
    unfolding step r using ls ld' a b c by blast
qed


lemma dround_of_int: "\<bar>n\<bar> < 2 ^ 53 \<Longrightarrow> dround (of_int n) = Fin (of_int n)"
proof -
  assume n: "\<bar>n\<bar> < 2 ^ 53"
  then have r: "round_nearest_even (of_int n) = of_int n" by (rule round_nearest_even_of_int)
  from n have "\<bar>n\<bar> < 2 ^ 1024" by simp
  then have "\<bar>real_of_int n\<bar> < 2 ^ 1024"
    by (metis of_int_abs of_int_less_iff of_int_numeral of_int_power)
  then show ?thesis by (simp add: dround_def r)
qed

text \<open>The literal \<^verbatim>\<open>0.001\<close> as a double.\<close>

lemma dround_0_001: "dround (1/1000) = Fin (1152921504606847 / 2 ^ 60)"
  by (simp add: round_simps)

lemma dtn_steps:
  assumes "0 \<le> q" "\<lceil>q\<rceil> + 1 < 2 ^ 32"
  shows "uint_of_double (dadd (ceil (Fin q)) (Fin 1)) = Inr (nat \<lceil>q\<rceil> + 1)"
proof -
  let ?c = "\<lceil>q\<rceil>"
  from assms(1) have c0: "0 \<le> ?c" by (simp add: ceiling_le_iff[symmetric] le_ceiling_iff)
  from c0 assms(2) have "\<bar>?c + 1\<bar> < 2 ^ 53" by simp
  then have "dround (of_int (?c + 1)) = Fin (of_int (?c + 1))" by (rule dround_of_int)
  then have v: "dadd (ceil (Fin q)) (Fin 1) = Fin (real_of_int (?c + 1))"
    by simp
  have lt: "real_of_int (?c + 1) < 2 ^ 32"
  proof -
    from assms(2) have "real_of_int (?c + 1) < real_of_int (2 ^ 32)" by (simp only: of_int_less_iff)
    then show ?thesis by simp
  qed
  have gt: "- 1 < real_of_int (?c + 1)" using c0 by linarith
  have "nat (?c + 1) = nat ?c + 1" using c0 by linarith
  then have fl: "nat \<lfloor>real_of_int (?c + 1)\<rfloor> = nat ?c + 1" by (simp only: floor_of_int)
  show ?thesis
    unfolding v uint_of_double_def using lt gt fl by simp
qed

text \<open>
  The quotient of a delta-t that is not negative by \<^verbatim>\<open>0.001\<close> is not negative, and it is
  at most the exact \<open>1000 * dt\<close> rounded up to an integer, because the double
  \<^verbatim>\<open>0.001\<close> is not below \<open>1/1000\<close> and the rounding is monotone.
\<close>

lemma quotient_bounds:
  assumes r: "0 \<le> r" and M: "r / (1/1000) \<le> of_int M" "\<bar>M\<bar> < 2 ^ 53"
  shows "\<exists>q. ddiv (Fin r) (dround (1/1000)) = Fin q \<and> 0 \<le> q \<and> q \<le> of_int M"
proof -
  let ?c = "1152921504606847 / 2 ^ 60 :: real"
  let ?y = "round_nearest_even (r / ?c)"
  have c: "1/1000 \<le> ?c" "0 < ?c" by simp_all
  from r have "r / ?c \<le> r / (1/1000)" by (intro divide_left_mono) simp_all
  with M(1) have "r / ?c \<le> of_int M" by linarith
  then have "?y \<le> round_nearest_even (of_int M)" by (rule round_nearest_even_mono)
  then have up: "?y \<le> of_int M" using round_nearest_even_of_int[OF M(2)] by simp
  from r have "0 \<le> r / ?c" by simp
  then have "round_nearest_even 0 \<le> ?y" by (rule round_nearest_even_mono)
  then have lo: "0 \<le> ?y" by simp
  from M(2) have "\<bar>M\<bar> < 2 ^ 1024" by simp
  then have "\<bar>real_of_int M\<bar> < 2 ^ 1024"
    by (metis of_int_abs of_int_less_iff of_int_numeral of_int_power)
  with up lo have "\<bar>?y\<bar> < 2 ^ 1024" by linarith
  then have "dround (r / ?c) = Fin ?y" by (simp add: dround_def)
  then have "ddiv (Fin r) (dround (1/1000)) = Fin ?y" by (simp add: dround_0_001)
  with lo up show ?thesis by blast
qed

lemma quotient_nonneg:
  assumes "ddiv (Fin r) (dround (1/1000)) = Fin q" "0 \<le> r"
  shows "0 \<le> q"
proof -
  let ?c = "1152921504606847 / 2 ^ 60 :: real"
  from assms(1) have "dround (r / ?c) = Fin q" by (simp add: dround_0_001)
  then have q: "q = round_nearest_even (r / ?c)"
    by (simp add: dround_def Let_def split: if_splits)
  from assms(2) have "0 \<le> r / ?c" by simp
  then have "round_nearest_even 0 \<le> round_nearest_even (r / ?c)" by (rule round_nearest_even_mono)
  with q show ?thesis by simp
qed

lemma dtn_defined:
  assumes "0 \<le> r" "\<lceil>r / (1/1000)\<rceil> + 1 < 2 ^ 32"
  shows "\<exists>n. uint_of_double (dadd (ceil (ddiv (Fin r) (dround (1/1000)))) (Fin 1)) = Inr n"
proof -
  let ?M = "\<lceil>r / (1/1000)\<rceil>"
  from assms(1) have M0: "0 \<le> ?M" by (simp add: ceiling_le_iff[symmetric] le_ceiling_iff)
  with assms(2) have "\<bar>?M\<bar> < 2 ^ 53" by simp
  from quotient_bounds[OF assms(1) le_of_int_ceiling this]
  obtain q where q: "ddiv (Fin r) (dround (1/1000)) = Fin q" "0 \<le> q" "q \<le> of_int ?M" by blast
  from q(3) have "\<lceil>q\<rceil> \<le> ?M" by (rule ceiling_le)
  with assms(2) have "\<lceil>q\<rceil> + 1 < 2 ^ 32" by linarith
  from dtn_steps[OF q(2) this] q(1) show ?thesis by simp
qed

text \<open>
  A call with well-formed arguments, a number of steps that \<^verbatim>\<open>unsigned int\<close> holds and
  trains that each hold a spike not before the window returns, and the outputs are those
  of the sweep on the trains clipped once.
\<close>

lemma mexFunction_returns:
  assumes nlhs: "nlhs \<le> 2"
    and cls: "mxIsDouble win" "mxIsDouble dta" "mxIsDouble A" "mxIsDouble B"
    and wf: "mx_wf A" "mx_wf B"
    and w: "mxGetNumberOfElements win = 2" "mxData win = [start, endv]" "dlt start endv"
    and d: "mxIsScalar dta" "mxData dta = [Fin max_dt]" "0 \<le> max_dt"
           "ddiv (Fin max_dt) (dround (1/1000)) = Fin q" "\<lceil>q\<rceil> + 1 < 2 ^ 32"
    and inA: "\<not> list_all (\<lambda>x. dlt x start) (mxData A)"
    and inB: "\<not> list_all (\<lambda>x. dlt x start) (mxData B)"
    and n: "n = nat \<lceil>q\<rceil> + 1"
  shows "\<exists>sttc DT A' Na B' Nb.
      mexFunction nlhs [win, dta, A, B]
        = Inr (if nlhs \<le> 1 then [column n sttc] else [column n sttc, column n DT])
      \<and> length sttc = n
      \<and> (1 < nlhs \<longrightarrow> length DT = n \<and> (\<forall>k<n. DT ! k = ddiv (double_of_int (int k)) (Fin 1000)))
      \<and> clip start endv (mxData A) (int (mxGetNumberOfElements A)) = Inr (A', Na)
      \<and> clip start endv (mxData B) (int (mxGetNumberOfElements B)) = Inr (B', Nb)
      \<and> (\<forall>k<n. run_sttc Na Nb (ddiv (double_of_int (int k)) (Fin 1000)) [start, endv] A' B' = Inr (sttc ! k))"
proof -
  let ?lt = "\<lambda>x. dlt x start" and ?le = "\<lambda>x. dle x endv"
  let ?A' = "dropWhile ?lt (mxData A)" and ?B' = "dropWhile ?lt (mxData B)"
  let ?Na = "int (length (takeWhile ?le ?A'))" and ?Nb = "int (length (takeWhile ?le ?B'))"
  let ?DT0 = "if 1 < nlhs then replicate n (Fin 0) else []"
  have nA: "int (mxGetNumberOfElements A) = int (length (mxData A))"
    and nB: "int (mxGetNumberOfElements B) = int (length (mxData B))"
    using wf by (simp_all add: mx_wf_def mxGetNumberOfElements_def)
  have fA: "clip_front start (mxData A) (int (length (mxData A))) = Inr (?A', int (length ?A'))"
    using inA by (simp add: clip_front_length)
  have fB: "clip_front start (mxData B) (int (length (mxData B))) = Inr (?B', int (length ?B'))"
    using inB by (simp add: clip_front_length)
  have bA: "clip_back endv ?A' (int (length ?A')) 0 = Inr ?Na"
    by (simp add: clip_back_spec)
  have bB: "clip_back endv ?B' (int (length ?B')) 0 = Inr ?Nb"
    by (simp add: clip_back_spec)
  have cA: "clip start endv (mxData A) (int (mxGetNumberOfElements A)) = Inr (?A', ?Na)"
    using inA by (simp add: nA clip_length)
  have cB: "clip start endv (mxData B) (int (mxGetNumberOfElements B)) = Inr (?B', ?Nb)"
    using inB by (simp add: nB clip_length)
  have ok: "\<And>dtv. \<exists>v. run_sttc ?Na ?Nb dtv [start, endv] ?A' ?B' = Inr v"
  proof -
    fix dtv
    have "length (takeWhile ?le ?A') \<le> length ?A'" "length (takeWhile ?le ?B') \<le> length ?B'"
      by (rule length_takeWhile_le)+
    then show "\<exists>v. run_sttc ?Na ?Nb dtv [start, endv] ?A' ?B' = Inr v"
      by (intro run_sttc_ok) simp_all
  qed
  have "0 \<le> n" "length (replicate n (Fin 0)) = n" "1 < nlhs \<longrightarrow> length ?DT0 = n" by simp_all
  from sweep_spec[of ?Na ?Nb "[start, endv]" ?A' ?B' 0 n "replicate n (Fin 0)" nlhs ?DT0, OF ok this]
  obtain sttc DT where sw: "sweep n nlhs ?Na ?Nb [start, endv] ?A' ?B' 0 (replicate n (Fin 0)) ?DT0
        = Inr (sttc, DT)"
    and ls: "length sttc = n"
    and ld: "length DT = length ?DT0"
    and co: "\<forall>k. 0 \<le> k \<and> k < n \<longrightarrow>
            run_sttc ?Na ?Nb (ddiv (double_of_int (int k)) (Fin 1000)) [start, endv] ?A' ?B' = Inr (sttc ! k)"
    and "\<forall>k<0. sttc ! k = replicate n (Fin 0) ! k"
    and dts: "1 < nlhs \<longrightarrow> (\<forall>k. 0 \<le> k \<and> k < n \<longrightarrow> DT ! k = ddiv (double_of_int (int k)) (Fin 1000))
                      \<and> (\<forall>k<0. DT ! k = ?DT0 ! k)"
    by (elim exE conjE) (rule that)
  have "0 \<le> q" using d(4,3) by (rule quotient_nonneg)
  then have dtn: "uint_of_double (dadd (ceil (ddiv (Fin max_dt) (dround (1/1000)))) (Fin 1))
      = Inr n"
    unfolding n d(4) using d(5) by (rule dtn_steps)
  have nw: "\<not> dle endv start" using w(3) by (rule dlt_not_dle)
  have comp: "mex_compute nlhs [win, dta, A, B] (Fin max_dt)
      = Inr (if nlhs \<le> 1 then [column n sttc] else [column n sttc, column n DT])"
    unfolding mex_compute_def dtn
    by (simp add: Let_def mxGetPr_def WINARG_def AARG_def BARG_def w(2) rd_def nw
        nA nB fA fB bA bB sw)
  have main: "mexFunction nlhs [win, dta, A, B]
      = Inr (if nlhs \<le> 1 then [column n sttc] else [column n sttc, column n DT])"
    unfolding mexFunction_def
    using nlhs cls w(1) d(1,3)
    by (simp add: NARGIN_def NARGOUT_def WINARG_def DTARG_def AARG_def BARG_def
        mxGetScalar_def d(2) rd_def comp)
  show ?thesis
    using main ls ld dts co cA cB
    by (intro exI[of _ sttc] exI[of _ DT] exI[of _ ?A'] exI[of _ ?Na] exI[of _ ?B'] exI[of _ ?Nb])
       simp
qed


text \<open>
  When such a call returns and one of the clipped trains is empty, every coefficient
  is NaN.
\<close>

lemma run_sttc_empty: "N1 = 0 \<or> N2 = 0 \<Longrightarrow> run_sttc N1 N2 dt Time s1 s2 = Inr NaN"
  by (simp add: run_sttc_def)

lemma mexFunction_all_NaN:
  assumes nlhs: "nlhs \<le> 2"
    and cls: "mxIsDouble win" "mxIsDouble dta" "mxIsDouble A" "mxIsDouble B"
    and wf: "mx_wf A" "mx_wf B"
    and w: "mxGetNumberOfElements win = 2" "mxData win = [start, endv]" "dlt start endv"
    and d: "mxIsScalar dta" "mxData dta = [Fin max_dt]" "0 \<le> max_dt"
           "ddiv (Fin max_dt) (dround (1/1000)) = Fin q" "\<lceil>q\<rceil> + 1 < 2 ^ 32"
    and inA: "\<not> list_all (\<lambda>x. dlt x start) (mxData A)"
    and inB: "\<not> list_all (\<lambda>x. dlt x start) (mxData B)"
    and n: "n = nat \<lceil>q\<rceil> + 1"
    and empty: "clip start endv (mxData A) (int (mxGetNumberOfElements A)) = Inr (A0, 0)
                \<or> clip start endv (mxData B) (int (mxGetNumberOfElements B)) = Inr (B0, 0)"
  shows "\<exists>DT. mexFunction nlhs [win, dta, A, B]
        = Inr (if nlhs \<le> 1 then [column n (replicate n NaN)]
               else [column n (replicate n NaN), column n DT])"
proof -
  from mexFunction_returns[OF nlhs cls wf w d inA inB n]
  obtain sttc DT A' Na B' Nb where r: "mexFunction nlhs [win, dta, A, B]
        = Inr (if nlhs \<le> 1 then [column n sttc] else [column n sttc, column n DT])"
    and ls: "length sttc = n"
    and cA: "clip start endv (mxData A) (int (mxGetNumberOfElements A)) = Inr (A', Na)"
    and cB: "clip start endv (mxData B) (int (mxGetNumberOfElements B)) = Inr (B', Nb)"
    and co: "\<forall>k<n. run_sttc Na Nb (ddiv (double_of_int (int k)) (Fin 1000)) [start, endv] A' B' = Inr (sttc ! k)"
    by blast
  from empty cA cB have "Na = 0 \<or> Nb = 0" by auto
  then have "\<forall>k<n. sttc ! k = NaN" using co by (simp add: run_sttc_empty)
  with ls have "sttc = replicate n NaN" by (simp add: list_eq_iff_nth_eq)
  with r show ?thesis by blast
qed




text \<open>The errors of the sweep and of the conversion.\<close>

lemma sweep_err: "sweep dtn nlhs Na Nb win A B i sttc DT = Inl e \<Longrightarrow> e = OutOfBounds"
proof (induction dtn nlhs Na Nb win A B i sttc DT rule: sweep.induct)
  case (1 dtn nlhs Na Nb win A B i sttc DT)
  let ?dtv = "ddiv (double_of_int (int i)) (Fin 1000)"
  let ?DT1 = "if 1 < nlhs then DT[i := ?dtv] else DT"
  show ?case
  proof (cases "i < dtn")
    case True
    show ?thesis
    proof (cases "run_sttc Na Nb ?dtv win A B")
      case (Inl e')
      with True "1.prems" have "e' = e" by (subst (asm) sweep.simps) (simp add: Let_def)
      with Inl show ?thesis by (auto dest: run_sttc_err)
    next
      case (Inr v)
      with True "1.prems" have "sweep dtn nlhs Na Nb win A B (i + 1) (sttc[i := v]) ?DT1 = Inl e"
        by (subst (asm) sweep.simps) (simp add: Let_def)
      with "1.IH"[OF True refl refl Inr] show ?thesis by simp
    qed
  next
    case False
    with "1.prems" show ?thesis by (subst (asm) sweep.simps) simp
  qed
qed

lemma uint_of_double_err: "uint_of_double d = Inl e \<Longrightarrow> e = UndefinedConversion"
  by (auto simp: uint_of_double_def split: double.splits if_splits)

text \<open>After the window check no call of \<^verbatim>\<open>mexErrMsgIdAndTxt\<close> is left.\<close>

lemma mex_compute_MexErr:
  assumes "mex_compute nlhs prhs dtv = Inl (MexErr msg)"
  shows "\<exists>w0 w1. rd (mxData (prhs ! WINARG)) 1 = Inr w1 \<and> rd (mxData (prhs ! WINARG)) 0 = Inr w0
           \<and> dle w1 w0"
proof -
  obtain dtn where dtn:
      "uint_of_double (dadd (ceil (ddiv dtv (dround (1/1000)))) (Fin 1)) = Inr dtn"
    using assms uint_of_double_err
    by (cases "uint_of_double (dadd (ceil (ddiv dtv (dround (1/1000)))) (Fin 1))")
       (auto simp: mex_compute_def)
  obtain w1 where w1: "rd (mxData (prhs ! WINARG)) 1 = Inr w1"
    using assms dtn rd_err
    by (cases "rd (mxData (prhs ! WINARG)) 1") (auto simp: mex_compute_def Let_def mxGetPr_def)
  obtain w0 where w0: "rd (mxData (prhs ! WINARG)) 0 = Inr w0"
    using assms dtn w1 rd_err
    by (cases "rd (mxData (prhs ! WINARG)) 0") (auto simp: mex_compute_def Let_def mxGetPr_def)
  have "dle w1 w0"
  proof (rule ccontr)
    assume n: "\<not> dle w1 w0"
    from assms show False
      unfolding mex_compute_def dtn
      by (auto simp: Let_def mxGetPr_def w1 w0 n split: sum.splits prod.splits if_splits
          dest: clip_front_err clip_back_err sweep_err)
  qed
  with w1 w0 show ?thesis by blast
qed


text \<open>
  C8, amended: for arrays as the host keeps them and a delta-t that, when it is a
  scalar, is finite with a number of steps below \<open>2^32\<close> (the step count is converted
  to \<^verbatim>\<open>unsigned int\<close> before the window is checked), the call is rejected with an error
  exactly when the number of inputs is not 4, more than 2 outputs are requested, \<open>win\<close>
  is not a two-element double, \<open>dt\<close> is not a scalar double, \<open>A\<close> or \<open>B\<close> is not of class
  double, \<open>dt < 0\<close>, or the end of the window is not after its start. A rejected call
  returns no output, and the checks come before the clipping and the sweep.

  The shape of \<open>A\<close> and \<open>B\<close> is not checked: the claim as stated fails for a 2 by 2
  double matrix \<open>A\<close>, which is accepted and read in storage order.
\<close>

theorem mexFunction_rejects_iff:
  assumes wf: "list_all mx_wf prhs"
    and rng: "length prhs = 4 \<and> mxIsScalar (prhs ! DTARG) \<longrightarrow>
       (\<exists>r. mxData (prhs ! DTARG) ! 0 = Fin r \<and> \<lceil>r / (1/1000)\<rceil> + 1 < 2 ^ 32)"
  shows "(\<exists>msg. mexFunction nlhs prhs = Inl (MexErr msg)) \<longleftrightarrow>
     (length prhs \<noteq> 4 \<or> 2 < nlhs
      \<or> \<not> mxIsDouble (prhs ! WINARG) \<or> mxGetNumberOfElements (prhs ! WINARG) \<noteq> 2
      \<or> \<not> mxIsDouble (prhs ! DTARG) \<or> \<not> mxIsScalar (prhs ! DTARG)
      \<or> \<not> mxIsDouble (prhs ! AARG) \<or> \<not> mxIsDouble (prhs ! BARG)
      \<or> dlt (mxData (prhs ! DTARG) ! 0) (Fin 0)
      \<or> dle (mxData (prhs ! WINARG) ! 1) (mxData (prhs ! WINARG) ! 0))"
  (is "?rejected \<longleftrightarrow> ?early \<or> ?neg \<or> ?lim"
   is "_ \<longleftrightarrow> ?invalid")
proof -
  let ?E = "length prhs \<noteq> 4 \<or> 2 < nlhs
      \<or> \<not> mxIsDouble (prhs ! WINARG) \<or> mxGetNumberOfElements (prhs ! WINARG) \<noteq> 2
      \<or> \<not> mxIsDouble (prhs ! DTARG) \<or> \<not> mxIsScalar (prhs ! DTARG)
      \<or> \<not> mxIsDouble (prhs ! AARG) \<or> \<not> mxIsDouble (prhs ! BARG)"
  let ?d = "mxData (prhs ! DTARG) ! 0"
  let ?w0 = "mxData (prhs ! WINARG) ! 0" and ?w1 = "mxData (prhs ! WINARG) ! 1"
  show ?thesis
  proof (cases ?E)
    case True
    then have "?rejected"
      by (auto simp: mexFunction_def NARGIN_def NARGOUT_def)
    with True show ?thesis by blast
  next
    case False
    then have len: "length prhs = 4" and sc: "mxIsScalar (prhs ! DTARG)"
      and nw: "mxGetNumberOfElements (prhs ! WINARG) = 2" by simp_all
    from wf len have wfd: "mx_wf (prhs ! DTARG)" and wfw: "mx_wf (prhs ! WINARG)"
      by (simp_all add: list_all_length DTARG_def WINARG_def)
    from wfd sc have gs: "mxGetScalar (prhs ! DTARG) = Inr ?d"
      by (simp add: mxGetScalar_def rd_def mx_wf_def mxIsScalar_def)
    from wfw nw have r1: "rd (mxData (prhs ! WINARG)) 1 = Inr ?w1"
      and r0: "rd (mxData (prhs ! WINARG)) 0 = Inr ?w0"
      by (simp_all add: rd_def mx_wf_def mxGetNumberOfElements_def)
    from False have m: "mexFunction nlhs prhs =
        (if dlt ?d (Fin 0) then Inl (MexErr ''MAK:maksttc_cutts:neg_dt'')
         else mex_compute nlhs prhs ?d)"
      by (simp add: mexFunction_def NARGIN_def NARGOUT_def gs)
    show ?thesis
    proof (cases "dlt ?d (Fin 0)")
      case True
      with m show ?thesis by simp
    next
      case nn: False
      from rng len sc obtain r where r: "?d = Fin r" and b: "\<lceil>r / (1/1000)\<rceil> + 1 < 2 ^ 32"
        by blast
      from nn r have "0 \<le> r" by simp
      from dtn_defined[OF this b]
      obtain n where dtn: "uint_of_double (dadd (ceil (ddiv ?d (dround (1/1000)))) (Fin 1))
         = Inr n" unfolding r by blast
      show ?thesis
      proof (cases "dle ?w1 ?w0")
        case True
        have "mex_compute nlhs prhs ?d = Inl (MexErr ''MAK:maksttc_cutts:winlim'')"
          unfolding mex_compute_def dtn
          using True by (simp add: Let_def mxGetPr_def r1 r0)
        with m nn True show ?thesis by simp
      next
        case nl: False
        have "\<not> ?rejected"
        proof
          assume ?rejected
          then obtain msg where "mex_compute nlhs prhs ?d = Inl (MexErr msg)"
            using m nn by auto
          from mex_compute_MexErr[OF this] r1 r0 nl show False by simp
        qed
        with False nn nl show ?thesis by blast
      qed
    qed
  qed
qed


theorem mexFunction_rejects_iff_witness:
  "\<exists>msg. mexFunction 1 [column 2 [Fin 1, Fin 0], column 1 [Fin 0], column 1 [Fin 3],
                         column 1 [Fin 3]] = Inl (MexErr msg)"
  using mexFunction_rejects_iff[of "[column 2 [Fin 1, Fin 0], column 1 [Fin 0],
      column 1 [Fin 3], column 1 [Fin 3]]" 1]
  by (simp add: mx_simps mx_wf_def)

theorem mexFunction_matrix_counterexample:
  "mexFunction 1 [column 2 [Fin 0, Fin 10], column 1 [Fin 0],
      \<lparr>mxClass = mxDOUBLE_CLASS, mxM = 2, mxN = 2, mxData = [Fin 1, Fin 2, Fin 3, Fin 4]\<rparr>,
      column 1 [Fin 3]] = Inr [column 1 [Fin (5/8)]]"
  by (simp add: mexFunction_def mex_compute_def mx_simps rd_def uint_of_double_def
      clip_front.simps clip_back.simps sweep.simps run_sttc_def sttc_formula_def
      run_T_simps run_P_simps double_simps round_simps)

text \<open>
  C4: for the window \<open>(0, 10)\<close>, \<open>dt\<close> the double \<^verbatim>\<open>0.002\<close>, the empty train \<open>A\<close> and \<open>B = [3]\<close>
  the call does not return a vector of NaN: the first clipping loop reads \<^verbatim>\<open>*A\<close> in
  an array without elements. (When the clipping loops stay inside the arrays and a
  clipped train is empty, every coefficient is NaN: \<open>mexFunction_all_NaN\<close>.)
\<close>

theorem mexFunction_empty_train:
  "mexFunction 1 [column 2 [Fin 0, Fin 10], column 1 [Fin (1152921504606847 / 2 ^ 59)],
                  column 0 [], column 1 [Fin 3]] = Inl OutOfBounds"
  by (simp add: mexFunction_def mex_compute_def mx_simps rd_def uint_of_double_def
      clip_front.simps round_simps)

text \<open>In particular the vector of three NaN that the sweep has room for is not returned.\<close>

theorem mexFunction_empty_train_witness:
  "mexFunction 1 [column 2 [Fin 0, Fin 10], column 1 [Fin (1152921504606847 / 2 ^ 59)],
                  column 0 [], column 1 [Fin 3]] \<noteq> Inr [column 3 [NaN, NaN, NaN]]"
  using mexFunction_empty_train by simp

end
